theory Spec2Isabelle
  imports Main "HOL-Library.Word"
begin

section \<open>Build-time constants (fastcomms.h)\<close>

text \<open>
  A \<open>char\<close> is one 8-bit byte. The header's macros keep their default values.
\<close>

type_synonym byte = "8 word"

definition BUFFER_SIZE :: nat where
  "BUFFER_SIZE = 64"

definition TX_QUEUE_SIZE :: nat where
  "TX_QUEUE_SIZE = 4"

definition MSG_END_A :: byte where
  "MSG_END_A = 13"

definition MSG_END_B :: byte where
  "MSG_END_B = 10"

definition bytes_of :: "string \<Rightarrow> byte list" where
  "bytes_of str = map of_char str"

definition RX_BUFFER_OVERFLOW :: "byte list" where
  "RX_BUFFER_OVERFLOW = bytes_of ''!rx buffer full!''"

definition RX_BAD_CHECKSUM :: "byte list" where
  "RX_BAD_CHECKSUM = bytes_of ''!rx badchecksum!''"

section \<open>C strings and bounded buffers\<close>

text \<open>
  A \<open>char*\<close> is modelled by the bytes stored from the pointer on. The string it
  denotes ends before the first NUL byte.
\<close>

definition cstr :: "byte list \<Rightarrow> byte list" where
  "cstr m = takeWhile (\<lambda>c. c \<noteq> 0) m"

definition strlen :: "byte list \<Rightarrow> nat" where
  "strlen m = length (cstr m)"

text \<open>
  Undefined behaviour of the C++ source (an access outside an array, a dereference of a
  pointer that was never set) is a value of type \<open>fault\<close>; an operation that can
  run into it returns \<open>fault + 'a\<close>.
\<close>

datatype buffer = Buf_in | Buf_msg | Buf_data | Buf_buf | Buf_sum | Buf_out | Buf_slot

datatype fault = OutOfBounds buffer nat | InvalidPointer

text \<open>\<open>store_str buf str\<close>: the array \<open>buf\<close> after \<open>str\<close> and its NUL were written at its start.\<close>

definition store_str :: "byte list \<Rightarrow> byte list \<Rightarrow> byte list" where
  "store_str buf str = str @ [0] @ drop (length str + 1) buf"

text \<open>
  \<open>strcpy(dest, src)\<close> writes \<open>strlen src + 1\<close> bytes; the first index outside
  \<open>dest\<close> is reported when they do not fit.
\<close>

definition strcpy :: "buffer \<Rightarrow> byte list \<Rightarrow> byte list \<Rightarrow> fault + byte list" where
  "strcpy which dest src =
     (if strlen src < length dest then Inr (store_str dest (cstr src))
      else Inl (OutOfBounds which (length dest)))"

text \<open>
  A local array (\<open>data\<close>, \<open>buf\<close>, \<open>sum\<close>) starts with indeterminate contents and is
  only ever read back as a string, so it is modelled by its capacity and the string
  written to it.
\<close>

definition write_local :: "buffer \<Rightarrow> nat \<Rightarrow> byte list \<Rightarrow> fault + byte list" where
  "write_local which cap str =
     (if length str < cap then Inr str else Inl (OutOfBounds which cap))"

definition poke :: "buffer \<Rightarrow> byte list \<Rightarrow> nat \<Rightarrow> byte \<Rightarrow> fault + byte list" where
  "poke which buf k v =
     (if k < length buf then Inr (buf[k := v]) else Inl (OutOfBounds which k))"

text \<open>The text \<open>printf\<close> writes for \<open>%d\<close> and a value that is not negative.\<close>

fun dec :: "nat \<Rightarrow> byte list" where
  "dec n = (if n < 10 then [of_nat (48 + n)] else dec (n div 10) @ [of_nat (48 + n mod 10)])"

declare dec.simps [simp del]

section \<open>The serial port and the object state (fastcomms.h)\<close>

text \<open>
  \<open>HardwareSerial\<close> is outside the repository. The model keeps what the library
  observes: the bytes waiting to be read (\<open>available()\<close> is their number), the free
  space of the transmit buffer (\<open>availableForWrite()\<close>), and the bit rate.
\<close>

record serial =
  rx_fifo :: "byte list"
  tx_free :: nat
  baud :: int

text \<open>
  What the library does to the outside world, in order: bytes read from and written to
  the port, and calls of the message handler with the string passed. The handler is
  application code; the model records the call and assumes the handler leaves the
  \<open>FastComms\<close> object as it is.
\<close>

datatype event = PortRead byte | PortWrite byte | HandlerCall nat "byte list"

text \<open>
  The private members, \<open>_x\<close> written \<open>m_x\<close>. The \<open>uint8_t\<close> members are naturals,
  reduced modulo 256 where the source could exceed 255. \<open>_port\<close> is \<open>None\<close> for
  \<open>nullptr\<close>; \<open>_msgHandler\<close> is the address of the handler, 0 for none. An entry of
  \<open>_out\<close> is either the index of the slot of \<open>_ob\<close> it points to or \<open>None\<close>
  (never assigned).
\<close>

record fastcomms =
  m_useChecksum :: bool
  m_port :: "serial option"
  m_msg :: "byte list"
  m_in :: "byte list"
  m_i :: nat
  m_rx :: bool
  m_msgHandler :: nat
  m_out :: "nat option list"
  m_ob :: "byte list list"
  m_obi :: nat
  m_o :: nat
  m_txb :: nat
  m_txlen :: nat
  trace :: "event list"

definition port_available :: "fastcomms \<Rightarrow> nat" where
  "port_available s = (case m_port s of Some p \<Rightarrow> length (rx_fifo p) | None \<Rightarrow> 0)"

text \<open>\<open>read()\<close> returns -1 when nothing waits, which the assignment to a \<open>char\<close> turns into 255.\<close>

definition port_read :: "fastcomms \<Rightarrow> byte \<times> fastcomms" where
  "port_read s =
     (case m_port s of
        Some p \<Rightarrow>
          (case rx_fifo p of
             b # rest \<Rightarrow> (b, s\<lparr>m_port := Some (p\<lparr>rx_fifo := rest\<rparr>), trace := trace s @ [PortRead b]\<rparr>)
           | [] \<Rightarrow> (255, s))
      | None \<Rightarrow> (255, s))"

definition port_availableForWrite :: "fastcomms \<Rightarrow> nat" where
  "port_availableForWrite s = (case m_port s of Some p \<Rightarrow> tx_free p | None \<Rightarrow> 0)"

definition port_write :: "fastcomms \<Rightarrow> byte \<Rightarrow> fastcomms" where
  "port_write s b =
     (case m_port s of
        Some p \<Rightarrow> s\<lparr>m_port := Some (p\<lparr>tx_free := tx_free p - 1\<rparr>), trace := trace s @ [PortWrite b]\<rparr>
      | None \<Rightarrow> s)"

section \<open>init, setMsgHandler, getMsg\<close>

definition init :: "fastcomms \<Rightarrow> int \<Rightarrow> bool \<Rightarrow> serial option \<Rightarrow> fastcomms" where
  "init s bd useChecksum port =
     (case port of
        Some p \<Rightarrow> s\<lparr>m_port := Some (p\<lparr>baud := bd\<rparr>), m_useChecksum := useChecksum\<rparr>
      | None \<Rightarrow> s\<lparr>m_useChecksum := useChecksum\<rparr>)"

definition setMsgHandler :: "fastcomms \<Rightarrow> nat \<Rightarrow> fastcomms" where
  "setMsgHandler s msgHandler = s\<lparr>m_msgHandler := msgHandler\<rparr>"

definition getMsg :: "fastcomms \<Rightarrow> byte list" where
  "getMsg s = m_msg s"

section \<open>sendMsg\<close>

text \<open>
  \<open>uint8_t l = strlen(msg)\<close> keeps the length modulo 256. \<open>strncat\<close> onto the emptied
  slot copies at most \<open>BUFFER_SIZE - 1\<close> characters and a NUL.
\<close>

definition sendMsg :: "fastcomms \<Rightarrow> byte list \<Rightarrow> int \<times> fastcomms" where
  "sendMsg s msg =
     (if m_o s < TX_QUEUE_SIZE then
        (let l = strlen msg mod 256 in
         if l < BUFFER_SIZE then
           (1, s\<lparr>m_out := (m_out s)[m_o s := Some (m_obi s)],
                 m_ob := (m_ob s)[m_obi s :=
                    store_str (m_ob s ! m_obi s) (take (BUFFER_SIZE - 1) (cstr msg))],
                 m_o := m_o s + 1,
                 m_obi := (if m_obi s < TX_QUEUE_SIZE - 1 then m_obi s + 1 else 0)\<rparr>)
         else (- 2, s))
      else (- 1, s))"

section \<open>checkSum\<close>

definition checkSum :: "byte list \<Rightarrow> byte" where
  "checkSum msg = foldl (\<lambda>sum c. sum + c) 0 (cstr msg)"

section \<open>txrx: the receive half (fastcomms.cpp, lines 122-229)\<close>

text \<open>
  Lines 163-170 and 190-201: raise \<open>_rx\<close>, copy the string to \<open>_msg\<close>, call the
  handler when one is registered.
\<close>

definition deliver :: "fastcomms \<Rightarrow> byte list \<Rightarrow> fault + fastcomms" where
  "deliver s src =
     (case strcpy Buf_msg (m_msg s) src of
        Inl f \<Rightarrow> Inl f
      | Inr m \<Rightarrow>
          Inr (s\<lparr>m_rx := True, m_msg := m,
                 trace := trace s @
                   (if m_msgHandler s \<noteq> 0 then [HandlerCall (m_msgHandler s) (cstr m)] else [])\<rparr>))"

text \<open>
  Lines 175-181: the three warnings of a bad checksum. \<open>buf\<close> has 64 bytes and
  \<open>sum\<close> has 10; the results of \<open>sendMsg\<close> are dropped, as in the source.
\<close>

definition bad_checksum :: "fastcomms \<Rightarrow> byte list \<Rightarrow> byte \<Rightarrow> fault + fastcomms" where
  "bad_checksum s data rxsum =
     (let s1 = snd (sendMsg s RX_BAD_CHECKSUM) in
      case write_local Buf_buf 64 (bytes_of ''!'' @ data) of
        Inl f \<Rightarrow> Inl f
      | Inr buf \<Rightarrow>
          (let s2 = snd (sendMsg s1 buf) in
           case write_local Buf_sum 10 (bytes_of ''!got ['' @ dec (unat rxsum) @ bytes_of '']'') of
             Inl f \<Rightarrow> Inl f
           | Inr sumtxt \<Rightarrow> Inr (snd (sendMsg s2 sumtxt))))"

text \<open>
  Lines 146-185, entered with \<open>_i > 2\<close>: \<open>data\<close> is a local array of
  \<open>BUFFER_SIZE - 3\<close> bytes.
\<close>

definition checked_frame :: "fastcomms \<Rightarrow> fault + fastcomms" where
  "checked_frame s =
     (let rxsum = m_in s ! (m_i s - 2) in
      case poke Buf_in (m_in s) (m_i s - 2) 0 of
        Inl f \<Rightarrow> Inl f
      | Inr inb \<Rightarrow>
          (case write_local Buf_data (BUFFER_SIZE - 3) (cstr inb) of
             Inl f \<Rightarrow> Inl f
           | Inr data \<Rightarrow>
               (case (if rxsum = checkSum data then deliver (s\<lparr>m_in := inb\<rparr>) data
                      else bad_checksum (s\<lparr>m_in := inb\<rparr>) data rxsum) of
                  Inl f \<Rightarrow> Inl f
                | Inr s1 \<Rightarrow> Inr (s1\<lparr>m_i := 0\<rparr>))))"

text \<open>Lines 189-201, entered with \<open>_i > 0\<close>.\<close>

definition plain_frame :: "fastcomms \<Rightarrow> fault + fastcomms" where
  "plain_frame s =
     (case poke Buf_in (m_in s) (m_i s - 1) 0 of
        Inl f \<Rightarrow> Inl f
      | Inr inb \<Rightarrow> deliver (s\<lparr>m_in := inb\<rparr>) inb)"

definition rx_part :: "fastcomms \<Rightarrow> fault + fastcomms" where
  "rx_part s =
     (if m_i s < BUFFER_SIZE then
        (if port_available s > 0 then
           (let (b, s0) = port_read s in
            case poke Buf_in (m_in s0) (m_i s0) b of
              Inl f \<Rightarrow> Inl f
            | Inr inb \<Rightarrow>
                (let s1 = s0\<lparr>m_in := inb\<rparr> in
                 if m_i s1 > 0 \<and> m_in s1 ! m_i s1 = MSG_END_B then
                   (if m_in s1 ! (m_i s1 - 1) = MSG_END_A then
                      (case (if m_useChecksum s1 \<and> m_i s1 > 2 then checked_frame s1
                             else plain_frame s1) of
                         Inl f \<Rightarrow> Inl f
                       | Inr s2 \<Rightarrow> Inr (s2\<lparr>m_i := 0\<rparr>))
                    else Inr (s1\<lparr>m_i := (m_i s1 + 1) mod 256\<rparr>))
                 else Inr (s1\<lparr>m_i := (m_i s1 + 1) mod 256\<rparr>)))
         else Inr s)
      else Inr (snd (sendMsg (s\<lparr>m_i := 0\<rparr>) RX_BUFFER_OVERFLOW)))"

section \<open>txrx: the transmit half (fastcomms.cpp, lines 230-333)\<close>

text \<open>The slot \<open>_out[0]\<close> points to.\<close>

definition head_slot :: "fastcomms \<Rightarrow> fault + byte list" where
  "head_slot s =
     (if 0 < length (m_out s) then
        (case m_out s ! 0 of
           Some k \<Rightarrow> if k < length (m_ob s) then Inr (m_ob s ! k) else Inl InvalidPointer
         | None \<Rightarrow> Inl InvalidPointer)
      else Inl (OutOfBounds Buf_out 0))"

text \<open>Lines 235-248: the length of the frame, set when a message starts.\<close>

definition start_head :: "fastcomms \<Rightarrow> fault + fastcomms" where
  "start_head s =
     (if m_txb s = 0 \<and> m_txlen s = 0 then
        (case head_slot s of
           Inl f \<Rightarrow> Inl f
         | Inr slot \<Rightarrow>
             Inr (s\<lparr>m_txlen := (strlen slot + (if m_useChecksum s then 3 else 2)) mod 256\<rparr>))
      else Inr s)"

text \<open>
  Lines 258-309: the byte to write, \<open>None\<close> where no branch of the source writes.
\<close>

definition payload_byte :: "fastcomms \<Rightarrow> fault + byte option" where
  "payload_byte s =
     (case head_slot s of
        Inl f \<Rightarrow> Inl f
      | Inr slot \<Rightarrow>
          if m_txb s < length slot then Inr (Some (slot ! m_txb s))
          else Inl (OutOfBounds Buf_slot (m_txb s)))"

definition tx_byte :: "fastcomms \<Rightarrow> fault + byte option" where
  "tx_byte s =
     (let bytes_left = m_txlen s - m_txb s in
      if m_useChecksum s then
        (if bytes_left \<le> 3 then
           (if bytes_left = 3 then
              (case head_slot s of Inl f \<Rightarrow> Inl f | Inr slot \<Rightarrow> Inr (Some (checkSum slot)))
            else if bytes_left = 2 then Inr (Some MSG_END_A)
            else if bytes_left = 1 then Inr (Some MSG_END_B)
            else Inr None)
         else payload_byte s)
      else
        (if bytes_left \<le> 2 then
           (if bytes_left = 2 then Inr (Some MSG_END_A)
            else if bytes_left = 1 then Inr (Some MSG_END_B)
            else Inr None)
         else payload_byte s))"

definition send_one :: "fastcomms \<Rightarrow> fault + fastcomms" where
  "send_one s =
     (case tx_byte s of
        Inl f \<Rightarrow> Inl f
      | Inr w \<Rightarrow>
          (let s1 = (case w of Some b \<Rightarrow> port_write s b | None \<Rightarrow> s)
           in Inr (s1\<lparr>m_txb := (m_txb s1 + 1) mod 256\<rparr>)))"

text \<open>
  Lines 319-324: \<open>for (_m = 1; _m <= _o; _m++) _out[_m - 1] = _out[_m]\<close>, on an array
  of \<open>length outq\<close> entries. The loop leaves the array before \<open>_m\<close> could wrap.
\<close>

function shift_out :: "nat \<Rightarrow> nat \<Rightarrow> nat option list \<Rightarrow> fault + nat option list" where
  "shift_out m n outq =
     (if m \<le> n then
        (if m < length outq then shift_out (m + 1) n (outq[m - 1 := outq ! m])
         else Inl (OutOfBounds Buf_out m))
      else Inr outq)"
  by pat_completeness auto
termination
  by (relation "measure (\<lambda>(m, n, outq). n + 1 - m)") auto

text \<open>Lines 318-331.\<close>

definition dequeue :: "fastcomms \<Rightarrow> fault + fastcomms" where
  "dequeue s =
     (case shift_out 1 (m_o s) (m_out s) of
        Inl f \<Rightarrow> Inl f
      | Inr outq \<Rightarrow> Inr (s\<lparr>m_out := outq, m_o := m_o s - 1, m_txlen := 0, m_txb := 0\<rparr>))"

definition tx_part :: "fastcomms \<Rightarrow> fault + fastcomms" where
  "tx_part s =
     (if m_o s > 0 then
        (case start_head s of
           Inl f \<Rightarrow> Inl f
         | Inr s1 \<Rightarrow>
             if m_txb s1 < m_txlen s1 then
               (if port_availableForWrite s1 > 0 then send_one s1 else Inr s1)
             else dequeue s1)
      else Inr s)"

section \<open>txrx\<close>

definition txrx :: "fastcomms \<Rightarrow> fault + bool \<times> fastcomms" where
  "txrx s =
     (if m_port s = None then Inr (False, s)
      else
        (case rx_part s of
           Inl f \<Rightarrow> Inl f
         | Inr s1 \<Rightarrow>
             (case tx_part s1 of
                Inl f \<Rightarrow> Inl f
              | Inr s2 \<Rightarrow>
                  if m_rx s2 then Inr (True, s2\<lparr>m_rx := False\<rparr>) else Inr (False, s2))))"

text \<open>\<open>ticks n s\<close>: \<open>n\<close> calls of \<open>txrx\<close> in a row, with the value each returned.\<close>

fun ticks :: "nat \<Rightarrow> fastcomms \<Rightarrow> fault + bool list \<times> fastcomms" where
  "ticks 0 s = Inr ([], s)"
| "ticks (Suc n) s =
     (case txrx s of
        Inl f \<Rightarrow> Inl f
      | Inr (r, s1) \<Rightarrow>
          (case ticks n s1 of
             Inl f \<Rightarrow> Inl f
           | Inr (rs, s2) \<Rightarrow> Inr (r # rs, s2)))"

section \<open>A constructed object\<close>

text \<open>
  The constructor leaves the arrays as they are. \<open>fresh\<close> is an object with static
  storage (all bytes zero, no pointer assigned) after its constructor ran.
\<close>

definition fresh :: fastcomms where
  "fresh =
     \<lparr>m_useChecksum = False, m_port = None, m_msg = replicate BUFFER_SIZE 0,
      m_in = replicate BUFFER_SIZE 0, m_i = 0, m_rx = False, m_msgHandler = 0,
      m_out = replicate TX_QUEUE_SIZE None,
      m_ob = replicate TX_QUEUE_SIZE (replicate BUFFER_SIZE 0),
      m_obi = 0, m_o = 0, m_txb = 0, m_txlen = 0, trace = []\<rparr>"

text \<open>
  \<open>device ck h inp\<close>: a fresh object after \<open>init\<close> on a port that holds the bytes
  \<open>inp\<close> and has room for 1000 outgoing bytes, with handler \<open>h\<close> registered.
\<close>

definition device :: "bool \<Rightarrow> nat \<Rightarrow> byte list \<Rightarrow> fastcomms" where
  "device ck h inp =
     setMsgHandler (init fresh 9600 ck (Some \<lparr>rx_fifo = inp, tx_free = 1000, baud = 0\<rparr>)) h"

section \<open>Reachable states\<close>

text \<open>
  What the constructor guarantees: the members with an initialiser have its value, the
  arrays have their declared sizes and any contents.
\<close>

definition constructed :: "fastcomms \<Rightarrow> bool" where
  "constructed s \<longleftrightarrow>
     \<not> m_useChecksum s \<and> m_port s = None \<and> m_i s = 0 \<and> \<not> m_rx s \<and> m_msgHandler s = 0 \<and>
     m_obi s = 0 \<and> m_o s = 0 \<and> m_txb s = 0 \<and> m_txlen s = 0 \<and>
     length (m_msg s) = BUFFER_SIZE \<and> length (m_in s) = BUFFER_SIZE \<and>
     length (m_out s) = TX_QUEUE_SIZE \<and> length (m_ob s) = TX_QUEUE_SIZE \<and>
     list_all (\<lambda>slot. length slot = BUFFER_SIZE) (m_ob s)"

text \<open>
  The states an application can bring the object to: calls of \<open>init\<close>,
  \<open>setMsgHandler\<close>, \<open>sendMsg\<close> and \<open>txrx\<close> in any order, and, between calls, any
  change of the port (bytes arrive, the transmit buffer drains). \<open>getMsg\<close> returns a
  value and changes nothing, so it adds no state.
\<close>

inductive reachable :: "fastcomms \<Rightarrow> bool" where
  start: "constructed s \<Longrightarrow> reachable s"
| by_init: "reachable s \<Longrightarrow> reachable (init s bd ck port)"
| by_setMsgHandler: "reachable s \<Longrightarrow> reachable (setMsgHandler s h)"
| by_sendMsg: "reachable s \<Longrightarrow> reachable (snd (sendMsg s msg))"
| by_txrx: "reachable s \<Longrightarrow> txrx s = Inr (r, s') \<Longrightarrow> reachable s'"
| by_port: "reachable s \<Longrightarrow> m_port s = Some p \<Longrightarrow> reachable (s\<lparr>m_port := Some p'\<rparr>)"

section \<open>The wire format, as the specification words it\<close>

text \<open>The frame of a payload: \<open>Payload [Checksum] TERM_A TERM_B\<close>.\<close>

definition frame :: "bool \<Rightarrow> byte list \<Rightarrow> byte list" where
  "frame ck P = P @ (if ck then [checkSum P] else []) @ [MSG_END_A, MSG_END_B]"

text \<open>The byte-selection rule of the transmit pump, by the number of bytes that remain.\<close>

definition select_byte :: "bool \<Rightarrow> byte list \<Rightarrow> nat \<Rightarrow> nat \<Rightarrow> byte" where
  "select_byte ck payload remaining offset =
     (if ck \<and> remaining = 3 then checkSum payload
      else if remaining = 2 then MSG_END_A
      else if remaining = 1 then MSG_END_B
      else payload ! offset)"

text \<open>A payload holds the terminator when \<open>MSG_END_A\<close> is directly followed by \<open>MSG_END_B\<close>.\<close>

fun term_pair_in :: "byte list \<Rightarrow> bool" where
  "term_pair_in (a # b # xs) = ((a = MSG_END_A \<and> b = MSG_END_B) \<or> term_pair_in (b # xs))"
| "term_pair_in xs = False"

section \<open>Views of the state used in the statements\<close>

text \<open>The strings that wait in the queue, head first.\<close>

definition queued :: "fastcomms \<Rightarrow> byte list list" where
  "queued s =
     map (\<lambda>e. case e of Some k \<Rightarrow> cstr (m_ob s ! k) | None \<Rightarrow> []) (take (m_o s) (m_out s))"

text \<open>
  The queue as a ring over the slots: the entries in use point to the \<open>_o\<close> slots before
  slot \<open>_obi\<close>, in order.
\<close>

definition ring :: "fastcomms \<Rightarrow> bool" where
  "ring s \<longleftrightarrow>
     length (m_out s) = TX_QUEUE_SIZE \<and> length (m_ob s) = TX_QUEUE_SIZE \<and>
     m_obi s < TX_QUEUE_SIZE \<and> m_o s \<le> TX_QUEUE_SIZE \<and>
     (\<forall>j < m_o s. m_out s ! j = Some ((m_obi s + TX_QUEUE_SIZE - m_o s + j) mod TX_QUEUE_SIZE))"

text \<open>The arrays have their declared sizes and the queue indices are in range.\<close>

definition layout :: "fastcomms \<Rightarrow> bool" where
  "layout s \<longleftrightarrow>
     length (m_msg s) = BUFFER_SIZE \<and> length (m_in s) = BUFFER_SIZE \<and>
     length (m_out s) = TX_QUEUE_SIZE \<and> length (m_ob s) = TX_QUEUE_SIZE \<and>
     m_obi s < TX_QUEUE_SIZE \<and> m_o s \<le> TX_QUEUE_SIZE"

text \<open>
  \<open>no_boundary prev xs\<close>: fed after the byte \<open>prev\<close>, no byte of \<open>xs\<close> completes
  the terminator.
\<close>

fun no_boundary :: "byte option \<Rightarrow> byte list \<Rightarrow> bool" where
  "no_boundary prev [] = True"
| "no_boundary prev (x # xs) =
     (\<not> (prev = Some MSG_END_A \<and> x = MSG_END_B) \<and> no_boundary (Some x) xs)"

section \<open>Properties of checkSum\<close>

lemma unat_foldl_add:
  "unat (foldl (\<lambda>sum c. sum + c) (a :: byte) xs) = (unat a + sum_list (map unat xs)) mod 256"
proof (induction xs arbitrary: a)
  case Nil
  have "unat a < 256" using unsigned_less [of a] by simp
  then show ?case by simp
next
  case (Cons x xs)
  have "unat (a + x) = (unat a + unat x) mod 256"
    by (simp add: unat_word_ariths)
  then show ?case
    by (simp add: Cons.IH mod_add_left_eq add.assoc)
qed

lemma cstr_no_nul: "0 \<notin> set P \<Longrightarrow> cstr P = P"
  by (simp add: cstr_def takeWhile_eq_all_conv) metis

text \<open>
  Claim C9. \<open>checkSum\<close> of a string is the sum of its bytes modulo 256, and 0 for the
  empty string. The function depends on nothing but its argument and has no failure
  value. A byte list without NUL is the string it denotes.
\<close>

theorem checkSum_is_sum_mod_256:
  "unat (checkSum P) = sum_list (map unat (cstr P)) mod 256
   \<and> (0 \<notin> set P \<longrightarrow> unat (checkSum P) = sum_list (map unat P) mod 256)
   \<and> checkSum [] = 0"
proof -
  have a: "unat (checkSum P) = sum_list (map unat (cstr P)) mod 256"
    by (simp add: checkSum_def unat_foldl_add)
  have b: "0 \<notin> set P \<longrightarrow> unat (checkSum P) = sum_list (map unat P) mod 256"
    using a by (simp add: cstr_no_nul)
  have c: "checkSum [] = 0"
    by (simp add: checkSum_def cstr_def)
  from a b c show ?thesis by blast
qed

theorem checkSum_is_sum_mod_256_witness:
  "0 \<notin> set (bytes_of ''ab'') \<and> unat (checkSum (bytes_of ''ab'')) = 195"
proof -
  have n: "0 \<notin> set (bytes_of ''ab'')"
    by (simp add: bytes_of_def)
  have "unat (checkSum (bytes_of ''ab'')) = sum_list (map unat (bytes_of ''ab'')) mod 256"
    using checkSum_is_sum_mod_256 [of "bytes_of ''ab''"] n by blast
  then show ?thesis using n by (simp add: bytes_of_def)
qed

section \<open>Properties of sendMsg\<close>

lemma sendMsg_queue_full: "fst (sendMsg s msg) = - 1 \<longleftrightarrow> \<not> m_o s < TX_QUEUE_SIZE"
  by (simp add: sendMsg_def Let_def)

lemma sendMsg_too_large:
  "fst (sendMsg s msg) = - 2 \<longleftrightarrow> m_o s < TX_QUEUE_SIZE \<and> BUFFER_SIZE \<le> strlen msg mod 256"
  by (simp add: sendMsg_def Let_def)

lemma sendMsg_failure_keeps_state: "fst (sendMsg s msg) \<noteq> 1 \<Longrightarrow> snd (sendMsg s msg) = s"
  by (simp add: sendMsg_def Let_def split: if_splits)

lemma sendMsg_success:
  "fst (sendMsg s msg) = 1 \<longleftrightarrow> m_o s < TX_QUEUE_SIZE \<and> strlen msg mod 256 < BUFFER_SIZE"
  by (simp add: sendMsg_def Let_def)

lemma sendMsg_success_state:
  assumes "m_o s < TX_QUEUE_SIZE" and "strlen msg mod 256 < BUFFER_SIZE"
  shows "snd (sendMsg s msg) =
           s\<lparr>m_out := (m_out s)[m_o s := Some (m_obi s)],
             m_ob := (m_ob s)[m_obi s :=
                store_str (m_ob s ! m_obi s) (take (BUFFER_SIZE - 1) (cstr msg))],
             m_o := m_o s + 1,
             m_obi := (if m_obi s < TX_QUEUE_SIZE - 1 then m_obi s + 1 else 0)\<rparr>"
  using assms by (simp add: sendMsg_def Let_def)

text \<open>
  For a message shorter than 256 bytes the three results are told apart as the
  documentation of \<open>sendMsg\<close> says: -1 exactly when the queue is full, -2 exactly when
  the queue has room and the message has \<open>BUFFER_SIZE\<close> bytes or more, 1 otherwise; a
  failure leaves the object unchanged.
\<close>

lemma sendMsg_short_message:
  assumes "strlen msg < 256"
  shows "(fst (sendMsg s msg) = - 1 \<longleftrightarrow> \<not> m_o s < TX_QUEUE_SIZE)
     \<and> (fst (sendMsg s msg) = - 2 \<longleftrightarrow> m_o s < TX_QUEUE_SIZE \<and> BUFFER_SIZE \<le> strlen msg)
     \<and> (fst (sendMsg s msg) = 1 \<longleftrightarrow> m_o s < TX_QUEUE_SIZE \<and> strlen msg < BUFFER_SIZE)
     \<and> (fst (sendMsg s msg) \<noteq> 1 \<longrightarrow> snd (sendMsg s msg) = s)"
  using assms by (simp add: sendMsg_def Let_def)

text \<open>
  Claim C5. The claim asks for -2 whenever the queue has room and the message has
  \<open>BUFFER_SIZE\<close> bytes or more. The length is kept in a \<open>uint8_t\<close>: a message of 256
  bytes has length 0 there, \<open>sendMsg\<close> returns 1 and queues its first 63 bytes.
\<close>

theorem sendMsg_accepts_256_bytes:
  "fst (sendMsg fresh (replicate 256 97)) = 1
   \<and> m_o (snd (sendMsg fresh (replicate 256 97))) = 1
   \<and> cstr (m_ob (snd (sendMsg fresh (replicate 256 97))) ! 0) = replicate 63 97"
  by code_simp

section \<open>The shift loop of the transmit queue\<close>

declare shift_out.simps [simp del]

lemma shift_out_past_end:
  "1 \<le> m \<Longrightarrow> m \<le> length outq \<Longrightarrow> length outq \<le> n \<Longrightarrow>
     shift_out m n outq = Inl (OutOfBounds Buf_out (length outq))"
proof (induction m n outq rule: shift_out.induct)
  case (1 m n outq)
  show ?case
  proof (cases "m < length outq")
    case True
    then have "shift_out m n outq = shift_out (m + 1) n (outq[m - 1 := outq ! m])"
      using "1.prems" by (subst shift_out.simps) simp
    also have "\<dots> = Inl (OutOfBounds Buf_out (length (outq[m - 1 := outq ! m])))"
      using True "1.prems" by (intro "1.IH") simp_all
    finally show ?thesis by simp
  next
    case False
    then have "m = length outq" using "1.prems" by simp
    then show ?thesis using "1.prems" by (subst shift_out.simps) simp
  qed
qed

lemma shift_out_inside:
  "1 \<le> m \<Longrightarrow> m \<le> n + 1 \<Longrightarrow> n < length outq \<Longrightarrow>
     shift_out m n outq =
       Inr (take (m - 1) outq @ take (n + 1 - m) (drop m outq) @ drop n outq)"
proof (induction m n outq rule: shift_out.induct)
  case (1 m n outq)
  show ?case
  proof (cases "m \<le> n")
    case True
    let ?q = "outq[m - 1 := outq ! m]"
    have lt: "m < length outq" using True "1.prems" by simp
    have "shift_out m n outq = shift_out (m + 1) n ?q"
      using True lt by (subst shift_out.simps) simp
    also have "\<dots> = Inr (take m ?q @ take (n - m) (drop (m + 1) ?q) @ drop n ?q)"
      using True lt "1.prems" "1.IH" [OF True lt] by simp
    also have "take m ?q = take (m - 1) outq @ [outq ! m]"
    proof -
      obtain k where k: "m = Suc k" using "1.prems" by (cases m) auto
      then show ?thesis using lt by (simp add: take_Suc_conv_app_nth)
    qed
    also have "drop (m + 1) ?q = drop (m + 1) outq"
      by simp
    also have "drop n ?q = drop n outq"
      using True "1.prems" by simp
    finally have "shift_out m n outq =
        Inr ((take (m - 1) outq @ [outq ! m]) @ take (n - m) (drop (m + 1) outq) @ drop n outq)" .
    moreover have "take (n + 1 - m) (drop m outq) = outq ! m # take (n - m) (drop (m + 1) outq)"
      using True lt
      by (metis Cons_nth_drop_Suc Suc_diff_le add.commute plus_1_eq_Suc take_Suc_Cons)
    ultimately show ?thesis by simp
  next
    case False
    then have "m = n + 1" using "1.prems" by simp
    then show ?thesis
      by (subst shift_out.simps) simp
  qed
qed

text \<open>
  With fewer entries than the array holds the loop stays inside the array: entries
  \<open>1 .. _o\<close> move down one place, the rest stay.
\<close>

lemma shift_out_from_1:
  "n < length outq \<Longrightarrow> shift_out (Suc 0) n outq = Inr (take n (tl outq) @ drop n outq)"
  using shift_out_inside [of 1 n outq] by (simp add: drop_Suc)

lemma dequeue_inside:
  "m_o s < length (m_out s) \<Longrightarrow>
     dequeue s =
       Inr (s\<lparr>m_out := take (m_o s) (tl (m_out s)) @ drop (m_o s) (m_out s),
              m_o := m_o s - 1, m_txlen := 0, m_txb := 0\<rparr>)"
  by (simp add: dequeue_def shift_out_from_1)

lemma dequeue_full_queue:
  "length (m_out s) = TX_QUEUE_SIZE \<Longrightarrow> m_o s = TX_QUEUE_SIZE \<Longrightarrow>
     dequeue s = Inl (OutOfBounds Buf_out TX_QUEUE_SIZE)"
  using shift_out_past_end [of 1 "m_out s" "m_o s"]
  by (simp add: dequeue_def TX_QUEUE_SIZE_def)

text \<open>
  Claim C10. The claim asks that the shift loop of a dequeue only touches indices below
  \<open>TX_QUEUE_SIZE\<close>. The loop runs while \<open>_m <= _o\<close> and reads \<open>_out[_m]\<close>: with four
  messages queued, the call of \<open>txrx\<close> after the last byte of the first one reads
  \<open>_out[4]\<close>, one past the end of the array.
\<close>

theorem dequeue_of_full_queue_reads_out_4:
  "ticks 4
     (snd (sendMsg (snd (sendMsg (snd (sendMsg (snd (sendMsg
        (device False 0 []) (bytes_of ''a''))) (bytes_of ''b''))) (bytes_of ''c'')))
        (bytes_of ''d'')))
   = Inl (OutOfBounds Buf_out 4)"
  by code_simp

section \<open>The local array of the checksum path\<close>

text \<open>
  Claim C2. The claim asks that the payload and its NUL fit the local array \<open>data\<close> for
  every accepted checksummed frame. \<open>data\<close> has \<open>BUFFER_SIZE - 3 = 61\<close> bytes; a frame
  of 61 payload bytes, its checksum and the two end bytes fills \<open>_in\<close> exactly, and
  \<open>strcpy(data, _in)\<close> then writes 62 bytes: the NUL lands on \<open>data[61]\<close>.
\<close>

theorem checked_frame_overruns_data:
  "ticks 64
     (device True 0 (replicate 61 97 @ [checkSum (replicate 61 97), MSG_END_A, MSG_END_B]))
   = Inl (OutOfBounds Buf_data 61)"
  by code_simp

section \<open>The receive half, case by case\<close>

lemma sendMsg_keeps [simp]:
  "m_i (snd (sendMsg s msg)) = m_i s"
  "m_in (snd (sendMsg s msg)) = m_in s"
  "m_msg (snd (sendMsg s msg)) = m_msg s"
  "m_rx (snd (sendMsg s msg)) = m_rx s"
  "m_port (snd (sendMsg s msg)) = m_port s"
  "trace (snd (sendMsg s msg)) = trace s"
  "m_useChecksum (snd (sendMsg s msg)) = m_useChecksum s"
  "m_msgHandler (snd (sendMsg s msg)) = m_msgHandler s"
  "m_txb (snd (sendMsg s msg)) = m_txb s"
  "m_txlen (snd (sendMsg s msg)) = m_txlen s"
  "length (m_out (snd (sendMsg s msg))) = length (m_out s)"
  "length (m_ob (snd (sendMsg s msg))) = length (m_ob s)"
  by (simp_all add: sendMsg_def Let_def)

lemma deliver_in:
  "deliver s src = Inr s' \<Longrightarrow> m_in s' = m_in s \<and> m_i s' = m_i s"
  by (auto simp: deliver_def strcpy_def split: if_splits)

lemma deliver_no_in_fault: "deliver s src \<noteq> Inl (OutOfBounds Buf_in k)"
  by (auto simp: deliver_def strcpy_def split: if_splits)

lemma bad_checksum_in:
  "bad_checksum s data rxsum = Inr s' \<Longrightarrow> m_in s' = m_in s \<and> m_i s' = m_i s"
  by (auto simp: bad_checksum_def Let_def write_local_def split: if_splits)

lemma bad_checksum_no_in_fault: "bad_checksum s data rxsum \<noteq> Inl (OutOfBounds Buf_in k)"
  by (auto simp: bad_checksum_def Let_def write_local_def split: if_splits)

lemma checked_frame_in:
  assumes "checked_frame s = Inr s'"
  shows "length (m_in s') = length (m_in s) \<and> m_i s' = 0"
proof -
  let ?inb = "(m_in s)[m_i s - 2 := 0]"
  let ?s0 = "s\<lparr>m_in := ?inb\<rparr>"
  have "\<exists>s1. (deliver ?s0 (cstr ?inb) = Inr s1 \<or>
      bad_checksum ?s0 (cstr ?inb) (m_in s ! (m_i s - 2)) = Inr s1) \<and> s' = s1\<lparr>m_i := 0\<rparr>"
    using assms
    by (auto simp: checked_frame_def Let_def poke_def write_local_def split: if_splits sum.splits)
  then obtain s1 where "deliver ?s0 (cstr ?inb) = Inr s1 \<or>
      bad_checksum ?s0 (cstr ?inb) (m_in s ! (m_i s - 2)) = Inr s1" and s': "s' = s1\<lparr>m_i := 0\<rparr>"
    by blast
  then have "m_in s1 = m_in ?s0"
    using deliver_in bad_checksum_in by blast
  then show ?thesis using s' by simp
qed

lemma checked_frame_no_in_fault:
  assumes "m_i s - 2 < length (m_in s)"
  shows "checked_frame s \<noteq> Inl (OutOfBounds Buf_in k)"
  using assms deliver_no_in_fault bad_checksum_no_in_fault
  by (auto simp: checked_frame_def Let_def poke_def write_local_def split: if_splits sum.splits)

lemma plain_frame_in:
  assumes "plain_frame s = Inr s'"
  shows "length (m_in s') = length (m_in s) \<and> m_i s' = m_i s"
proof -
  let ?inb = "(m_in s)[m_i s - 1 := 0]"
  have "deliver (s\<lparr>m_in := ?inb\<rparr>) ?inb = Inr s'"
    using assms by (auto simp: plain_frame_def poke_def split: if_splits)
  from deliver_in [OF this] show ?thesis by simp
qed

lemma plain_frame_no_in_fault:
  assumes "m_i s - 1 < length (m_in s)"
  shows "plain_frame s \<noteq> Inl (OutOfBounds Buf_in k)"
  using assms deliver_no_in_fault
  by (auto simp: plain_frame_def poke_def split: if_splits)

lemma port_available_pos:
  "0 < port_available s \<Longrightarrow> \<exists>p b rest. m_port s = Some p \<and> rx_fifo p = b # rest"
  by (cases "m_port s") (auto simp: port_available_def neq_Nil_conv)

lemma rx_part_idle:
  "m_i s < BUFFER_SIZE \<Longrightarrow> port_available s = 0 \<Longrightarrow> rx_part s = Inr s"
  by (simp add: rx_part_def)

lemma rx_part_overflow:
  "\<not> m_i s < BUFFER_SIZE \<Longrightarrow>
     rx_part s = Inr (snd (sendMsg (s\<lparr>m_i := 0\<rparr>) RX_BUFFER_OVERFLOW))"
  by (simp add: rx_part_def)

lemma rx_part_read:
  assumes "m_i s < BUFFER_SIZE" and "m_port s = Some p" and "rx_fifo p = b # rest"
    and "length (m_in s) = BUFFER_SIZE"
  shows "rx_part s =
    (if 0 < m_i s \<and> b = MSG_END_B \<and> m_in s ! (m_i s - 1) = MSG_END_A then
       (case (if m_useChecksum s \<and> 2 < m_i s
              then checked_frame (s\<lparr>m_port := Some (p\<lparr>rx_fifo := rest\<rparr>),
                      trace := trace s @ [PortRead b], m_in := (m_in s)[m_i s := b]\<rparr>)
              else plain_frame (s\<lparr>m_port := Some (p\<lparr>rx_fifo := rest\<rparr>),
                      trace := trace s @ [PortRead b], m_in := (m_in s)[m_i s := b]\<rparr>)) of
          Inl f \<Rightarrow> Inl f
        | Inr s2 \<Rightarrow> Inr (s2\<lparr>m_i := 0\<rparr>))
     else Inr (s\<lparr>m_port := Some (p\<lparr>rx_fifo := rest\<rparr>),
                trace := trace s @ [PortRead b], m_in := (m_in s)[m_i s := b],
                m_i := m_i s + 1\<rparr>))"
proof -
  have small: "(m_i s + 1) mod 256 = m_i s + 1"
    using assms(1) by (simp add: BUFFER_SIZE_def)
  show ?thesis
  proof (cases "0 < m_i s")
    case True
    then have prev: "(m_in s)[m_i s := b] ! (m_i s - Suc 0) = m_in s ! (m_i s - Suc 0)"
      by simp
    show ?thesis
      using assms small True
      by (simp add: rx_part_def port_available_def port_read_def poke_def Let_def prev)
  next
    case False
    then show ?thesis
      using assms
      by (simp add: rx_part_def port_available_def port_read_def poke_def Let_def)
  qed
qed

lemma rx_part_in:
  assumes "rx_part s = Inr s'" and "length (m_in s) = BUFFER_SIZE" and "m_i s \<le> BUFFER_SIZE"
  shows "length (m_in s') = BUFFER_SIZE \<and> m_i s' \<le> BUFFER_SIZE"
proof (cases "m_i s < BUFFER_SIZE")
  case False
  then show ?thesis using assms by (auto simp: rx_part_overflow)
next
  case True
  show ?thesis
  proof (cases "0 < port_available s")
    case False
    then show ?thesis using assms True by (simp add: rx_part_idle)
  next
    case avail: True
    then obtain p b rest where p: "m_port s = Some p" "rx_fifo p = b # rest"
      using port_available_pos by blast
    let ?s1 = "s\<lparr>m_port := Some (p\<lparr>rx_fifo := rest\<rparr>),
                      trace := trace s @ [PortRead b], m_in := (m_in s)[m_i s := b]\<rparr>"
    note rd = rx_part_read [OF True p assms(2)]
    show ?thesis
    proof (cases "0 < m_i s \<and> b = MSG_END_B \<and> m_in s ! (m_i s - 1) = MSG_END_A")
      case False
      then have "s' = ?s1\<lparr>m_i := m_i s + 1\<rparr>"
        using rd assms(1) by (simp split: if_splits)
      then show ?thesis using True assms(2) by simp
    next
      case bnd: True
      then have "\<exists>s2. (checked_frame ?s1 = Inr s2 \<or> plain_frame ?s1 = Inr s2) \<and> s' = s2\<lparr>m_i := 0\<rparr>"
        using rd assms(1) by (auto split: if_splits sum.splits)
      then obtain s2 where "checked_frame ?s1 = Inr s2 \<or> plain_frame ?s1 = Inr s2"
        and s': "s' = s2\<lparr>m_i := 0\<rparr>" by blast
      then have "length (m_in s2) = length (m_in ?s1)"
        using checked_frame_in plain_frame_in by blast
      then show ?thesis using s' assms(2) by simp
    qed
  qed
qed

lemma rx_part_no_in_fault:
  assumes "length (m_in s) = BUFFER_SIZE"
  shows "rx_part s \<noteq> Inl (OutOfBounds Buf_in k)"
proof (cases "m_i s < BUFFER_SIZE \<and> 0 < port_available s")
  case False
  then show ?thesis by (auto simp: rx_part_def)
next
  case True
  then obtain p b rest where p: "m_port s = Some p" "rx_fifo p = b # rest"
    using port_available_pos by blast
  let ?s1 = "s\<lparr>m_port := Some (p\<lparr>rx_fifo := rest\<rparr>),
                    trace := trace s @ [PortRead b], m_in := (m_in s)[m_i s := b]\<rparr>"
  have i: "m_i s < BUFFER_SIZE" using True by simp
  have "checked_frame ?s1 \<noteq> Inl (OutOfBounds Buf_in k)"
    using i assms by (intro checked_frame_no_in_fault) simp
  moreover have "plain_frame ?s1 \<noteq> Inl (OutOfBounds Buf_in k)"
    using i assms by (intro plain_frame_no_in_fault) simp
  ultimately show ?thesis
    unfolding rx_part_read [OF i p assms]
    by (auto split: sum.splits)
qed

section \<open>The transmit half, case by case\<close>

lemma cstr_no_zero: "0 \<notin> set (cstr m)"
  unfolding cstr_def by (metis (mono_tags, lifting) set_takeWhileD)

lemma cstr_idem [simp]: "cstr (cstr m) = cstr m"
  by (simp add: cstr_no_nul cstr_no_zero)

lemma checkSum_cstr [simp]: "checkSum (cstr m) = checkSum m"
  by (simp add: checkSum_def)

lemma strlen_le_length: "strlen m \<le> length m"
  by (simp add: strlen_def cstr_def length_takeWhile_le)

lemma cstr_nth: "j < strlen m \<Longrightarrow> cstr m ! j = m ! j"
  by (simp add: strlen_def cstr_def takeWhile_nth)

lemma cstr_store_str: "0 \<notin> set str \<Longrightarrow> cstr (store_str buf str) = str"
  by (simp add: cstr_def store_str_def takeWhile_append1 takeWhile_eq_all_conv[THEN iffD2])
     (metis (mono_tags, lifting) takeWhile_append2 takeWhile.simps append_Nil2)

lemma length_store_str: "length str < length buf \<Longrightarrow> length (store_str buf str) = length buf"
  by (simp add: store_str_def)

lemma head_slot_ok:
  "m_out s \<noteq> [] \<Longrightarrow> m_out s ! 0 = Some k \<Longrightarrow> k < length (m_ob s) \<Longrightarrow>
     head_slot s = Inr (m_ob s ! k)"
  by (simp add: head_slot_def)

lemma tx_part_empty: "m_o s = 0 \<Longrightarrow> tx_part s = Inr s"
  by (simp add: tx_part_def)

lemma head_slot_cursor [simp]:
  "head_slot (s\<lparr>m_txlen := n\<rparr>) = head_slot s"
  "head_slot (s\<lparr>m_txb := n\<rparr>) = head_slot s"
  by (simp_all add: head_slot_def split: option.splits)

lemma start_head_ok:
  assumes "head_slot s = Inr slot"
  shows "start_head s =
    Inr (if m_txb s = 0 \<and> m_txlen s = 0
         then s\<lparr>m_txlen := (strlen slot + (if m_useChecksum s then 3 else 2)) mod 256\<rparr>
         else s)"
  using assms by (simp add: start_head_def)

lemma tx_byte_select:
  assumes "head_slot s = Inr slot"
    and "m_txlen s = strlen slot + (if m_useChecksum s then 3 else 2)"
    and "m_txb s < m_txlen s"
  shows "tx_byte s =
    Inr (Some (select_byte (m_useChecksum s) (cstr slot) (m_txlen s - m_txb s) (m_txb s)))"
proof (cases "m_txb s < strlen slot")
  case True
  then have nth: "m_txb s < length slot" "cstr slot ! m_txb s = slot ! m_txb s"
    using strlen_le_length [of slot] by (simp_all add: cstr_nth)
  show ?thesis
  proof (cases "m_useChecksum s")
    case ck: True
    then have "m_txlen s - m_txb s > 3" using assms(2) True by simp
    then show ?thesis
      using ck nth assms(1)
      by (simp add: tx_byte_def payload_byte_def select_byte_def Let_def)
  next
    case ck: False
    then have "m_txlen s - m_txb s > 2" using assms(2) True by simp
    then show ?thesis
      using ck nth assms(1)
      by (simp add: tx_byte_def payload_byte_def select_byte_def Let_def)
  qed
next
  case False
  show ?thesis
  proof (cases "m_useChecksum s")
    case ck: True
    then consider "m_txlen s - m_txb s = 3" | "m_txlen s - m_txb s = 2" | "m_txlen s - m_txb s = 1"
      using assms(2,3) False by fastforce
    then show ?thesis
      using ck assms(1)
      by cases (simp_all add: tx_byte_def select_byte_def Let_def)
  next
    case ck: False
    then consider "m_txlen s - m_txb s = 2" | "m_txlen s - m_txb s = 1"
      using assms(2,3) False by fastforce
    then show ?thesis
      using ck assms(1)
      by cases (simp_all add: tx_byte_def select_byte_def Let_def)
  qed
qed

lemma tx_part_send:
  assumes "0 < m_o s" and "head_slot s = Inr slot" and "strlen slot + 3 < 256"
    and "m_port s = Some p" and "0 < tx_free p"
    and "flen = strlen slot + (if m_useChecksum s then 3 else 2)"
    and "(m_txb s = 0 \<and> m_txlen s = 0) \<or> m_txlen s = flen"
    and "m_txb s < flen"
  shows "tx_part s =
    Inr (s\<lparr>m_txlen := flen, m_port := Some (p\<lparr>tx_free := tx_free p - 1\<rparr>),
           trace := trace s @
             [PortWrite (select_byte (m_useChecksum s) (cstr slot) (flen - m_txb s) (m_txb s))],
           m_txb := m_txb s + 1\<rparr>)"
proof -
  let ?s1 = "s\<lparr>m_txlen := flen\<rparr>"
  have nmod: "(strlen slot + (if m_useChecksum s then 3 else 2)) mod 256 = flen"
    using assms(3) unfolding assms(6) by simp
  have st: "start_head s = Inr ?s1"
  proof (cases "m_txb s = 0 \<and> m_txlen s = 0")
    case True
    then show ?thesis
      unfolding start_head_ok [OF assms(2)] using nmod by simp
  next
    case False
    then have "flen = m_txlen s" using assms(7) by blast
    then show ?thesis
      by (simp add: start_head_def if_not_P [OF False])
  qed
  have tb: "tx_byte ?s1 =
      Inr (Some (select_byte (m_useChecksum s) (cstr slot) (flen - m_txb s) (m_txb s)))"
    using tx_byte_select [of ?s1 slot] assms(2,8) assms(6) [symmetric] by simp
  have "flen < 256" using assms(3) unfolding assms(6) by simp
  then have inc: "(m_txb s + 1) mod 256 = m_txb s + 1"
    using assms(8) by simp
  have so: "send_one ?s1 = Inr (s\<lparr>m_txlen := flen, m_port := Some (p\<lparr>tx_free := tx_free p - 1\<rparr>),
           trace := trace s @
             [PortWrite (select_byte (m_useChecksum s) (cstr slot) (flen - m_txb s) (m_txb s))],
           m_txb := m_txb s + 1\<rparr>)"
    unfolding send_one_def tb using assms(4) inc by (simp add: port_write_def)
  have aw: "port_availableForWrite ?s1 > 0"
    using assms(4,5) by (simp add: port_availableForWrite_def)
  show ?thesis
    unfolding tx_part_def st using assms(1,8) aw so by simp
qed

lemma tx_part_blocked:
  assumes "0 < m_o s" and "head_slot s = Inr slot" and "strlen slot + 3 < 256"
    and "m_port s = Some p" and "tx_free p = 0"
    and "flen = strlen slot + (if m_useChecksum s then 3 else 2)"
    and "(m_txb s = 0 \<and> m_txlen s = 0) \<or> m_txlen s = flen"
    and "m_txb s < flen"
  shows "tx_part s = Inr (s\<lparr>m_txlen := flen\<rparr>)"
proof -
  let ?s1 = "s\<lparr>m_txlen := flen\<rparr>"
  have nmod: "(strlen slot + (if m_useChecksum s then 3 else 2)) mod 256 = flen"
    using assms(3) unfolding assms(6) by simp
  have st: "start_head s = Inr ?s1"
  proof (cases "m_txb s = 0 \<and> m_txlen s = 0")
    case True
    then show ?thesis
      unfolding start_head_ok [OF assms(2)] using nmod by simp
  next
    case False
    then have "flen = m_txlen s" using assms(7) by blast
    then show ?thesis
      by (simp add: start_head_def if_not_P [OF False])
  qed
  have aw: "port_availableForWrite ?s1 = 0"
    using assms(4,5) by (simp add: port_availableForWrite_def)
  show ?thesis
    unfolding tx_part_def st using assms(1,8) aw by simp
qed

lemma tx_part_dequeue:
  assumes "0 < m_o s" and "m_txlen s \<le> m_txb s" and "m_txb s \<noteq> 0 \<or> m_txlen s \<noteq> 0"
    and "m_o s < length (m_out s)"
  shows "tx_part s =
    Inr (s\<lparr>m_out := take (m_o s) (tl (m_out s)) @ drop (m_o s) (m_out s),
           m_o := m_o s - 1, m_txlen := 0, m_txb := 0\<rparr>)"
proof -
  have "\<not> (m_txb s = 0 \<and> m_txlen s = 0)" using assms(3) by simp
  then have st: "start_head s = Inr s"
    by (simp add: start_head_def if_not_P)
  show ?thesis
    unfolding tx_part_def st using assms(1,2,4) by (simp add: dequeue_inside)
qed

lemma start_head_frame: "start_head s = Inr s1 \<Longrightarrow> \<exists>n. s1 = s\<lparr>m_txlen := n\<rparr>"
proof (cases "m_txb s = 0 \<and> m_txlen s = 0")
  case True
  assume "start_head s = Inr s1"
  then show ?thesis using True by (auto simp: start_head_def split: sum.splits)
next
  case False
  assume "start_head s = Inr s1"
  then have "s1 = s\<lparr>m_txlen := m_txlen s\<rparr>"
    by (simp add: start_head_def if_not_P [OF False])
  then show ?thesis by blast
qed

lemma send_one_frame:
  assumes "send_one s = Inr s'"
  shows "m_i s' = m_i s \<and> m_in s' = m_in s \<and> m_msg s' = m_msg s \<and> m_rx s' = m_rx s \<and>
     m_ob s' = m_ob s \<and> m_obi s' = m_obi s \<and> m_out s' = m_out s \<and> m_o s' = m_o s \<and>
     m_useChecksum s' = m_useChecksum s \<and> m_msgHandler s' = m_msgHandler s \<and>
     port_available s' = port_available s \<and>
     (trace s' = trace s \<or> (\<exists>b. trace s' = trace s @ [PortWrite b]))"
  using assms
  by (auto simp: send_one_def Let_def port_write_def port_available_def
      split: sum.splits option.splits)

lemma dequeue_frame:
  assumes "dequeue s = Inr s'"
  shows "m_i s' = m_i s \<and> m_in s' = m_in s \<and> m_msg s' = m_msg s \<and> m_rx s' = m_rx s \<and>
     m_ob s' = m_ob s \<and> m_obi s' = m_obi s \<and> m_o s' \<le> m_o s \<and>
     m_useChecksum s' = m_useChecksum s \<and> m_msgHandler s' = m_msgHandler s \<and>
     port_available s' = port_available s \<and> trace s' = trace s"
  using assms
  by (auto simp: dequeue_def port_available_def split: sum.splits)

lemma tx_part_frame:
  assumes "tx_part s = Inr s'"
  shows "m_i s' = m_i s \<and> m_in s' = m_in s \<and> m_msg s' = m_msg s \<and> m_rx s' = m_rx s \<and>
     m_ob s' = m_ob s \<and> m_obi s' = m_obi s \<and> m_o s' \<le> m_o s \<and>
     m_useChecksum s' = m_useChecksum s \<and> m_msgHandler s' = m_msgHandler s \<and>
     port_available s' = port_available s \<and>
     (trace s' = trace s \<or> (\<exists>b. trace s' = trace s @ [PortWrite b]))"
proof (cases "0 < m_o s")
  case False
  then show ?thesis using assms by (simp add: tx_part_def)
next
  case True
  then obtain s1 where st: "start_head s = Inr s1"
    using assms by (auto simp: tx_part_def split: sum.splits)
  then obtain n where s1: "s1 = s\<lparr>m_txlen := n\<rparr>"
    using start_head_frame by blast
  have "s' = s1 \<or> send_one s1 = Inr s' \<or> dequeue s1 = Inr s'"
    using assms True st by (auto simp: tx_part_def split: if_splits)
  then show ?thesis
  proof (elim disjE)
    assume "s' = s1"
    then show ?thesis using s1 by (simp add: port_available_def)
  next
    assume "send_one s1 = Inr s'"
    from send_one_frame [OF this] show ?thesis using s1 by (simp add: port_available_def)
  next
    assume "dequeue s1 = Inr s'"
    from dequeue_frame [OF this] show ?thesis using s1 by (simp add: port_available_def)
  qed
qed

lemma tx_part_no_in_fault: "tx_part s \<noteq> Inl (OutOfBounds Buf_in k)"
proof -
  have a: "head_slot t \<noteq> Inl (OutOfBounds Buf_in k)" for t
    by (auto simp: head_slot_def split: option.splits)
  have b: "start_head t \<noteq> Inl (OutOfBounds Buf_in k)" for t
    using a [of t] by (auto simp: start_head_def split: sum.splits)
  have c: "tx_byte t \<noteq> Inl (OutOfBounds Buf_in k)" for t
    using a [of t] by (auto simp: tx_byte_def payload_byte_def Let_def split: sum.splits)
  have d: "send_one t \<noteq> Inl (OutOfBounds Buf_in k)" for t
    using c [of t] by (auto simp: send_one_def Let_def split: sum.splits)
  have e: "shift_out m n q \<noteq> Inl (OutOfBounds Buf_in k)" for m n q
  proof (induction m n q rule: shift_out.induct)
    case (1 m n q)
    then show ?case by (subst shift_out.simps) auto
  qed
  have f: "dequeue t \<noteq> Inl (OutOfBounds Buf_in k)" for t
    using e by (auto simp: dequeue_def split: sum.splits)
  show ?thesis
    using b d f by (auto simp: tx_part_def split: sum.splits)
qed

section \<open>txrx as a whole, and the inbound index\<close>

lemma txrx_no_port: "m_port s = None \<Longrightarrow> txrx s = Inr (False, s)"
  by (simp add: txrx_def)

lemma txrx_compose:
  assumes "m_port s = Some p" and "rx_part s = Inr s1" and "tx_part s1 = Inr s2"
  shows "txrx s = Inr (m_rx s2, s2\<lparr>m_rx := False\<rparr>)"
proof (cases "m_rx s2")
  case True
  then show ?thesis using assms by (simp add: txrx_def)
next
  case False
  then have "s2\<lparr>m_rx := False\<rparr> = s2" by simp
  then show ?thesis using assms False by (simp add: txrx_def)
qed

lemma txrx_halves:
  assumes "txrx s = Inr (r, s')" and "m_port s = Some p"
  shows "\<exists>s1 s2. rx_part s = Inr s1 \<and> tx_part s1 = Inr s2 \<and> r = m_rx s2 \<and> s' = s2\<lparr>m_rx := False\<rparr>"
proof -
  obtain s1 where s1: "rx_part s = Inr s1"
    using assms by (auto simp: txrx_def split: sum.splits)
  obtain s2 where s2: "tx_part s1 = Inr s2"
    using assms s1 by (auto simp: txrx_def split: sum.splits)
  from txrx_compose [OF assms(2) s1 s2] assms(1) s1 s2 show ?thesis by auto
qed

lemma txrx_in:
  assumes "txrx s = Inr (r, s')" and "length (m_in s) = BUFFER_SIZE" and "m_i s \<le> BUFFER_SIZE"
  shows "length (m_in s') = BUFFER_SIZE \<and> m_i s' \<le> BUFFER_SIZE"
proof (cases "m_port s")
  case None
  then show ?thesis using assms by (simp add: txrx_no_port)
next
  case (Some p)
  from txrx_halves [OF assms(1) Some] obtain s1 s2 where
    h: "rx_part s = Inr s1" "tx_part s1 = Inr s2" "s' = s2\<lparr>m_rx := False\<rparr>" by blast
  from rx_part_in [OF h(1) assms(2,3)] tx_part_frame [OF h(2)] h(3)
  show ?thesis by simp
qed

lemma txrx_no_in_fault:
  assumes "length (m_in s) = BUFFER_SIZE"
  shows "txrx s \<noteq> Inl (OutOfBounds Buf_in k)"
  using rx_part_no_in_fault [OF assms, of k] tx_part_no_in_fault [of _ k]
  by (auto simp: txrx_def split: sum.splits if_splits)

lemma reachable_in:
  assumes "reachable s"
  shows "length (m_in s) = BUFFER_SIZE \<and> m_i s \<le> BUFFER_SIZE"
  using assms
proof (induction rule: reachable.induct)
  case (start s)
  then show ?case by (simp add: constructed_def)
next
  case (by_init s bd ck port)
  then show ?case by (cases port) (simp_all add: init_def)
next
  case (by_setMsgHandler s h)
  then show ?case by (simp add: setMsgHandler_def)
next
  case (by_sendMsg s msg)
  then show ?case by simp
next
  case (by_txrx s r s')
  then show ?case using txrx_in by blast
next
  case (by_port s p p')
  then show ?case by simp
qed

lemma reachable_ticks:
  "reachable s \<Longrightarrow> ticks n s = Inr (rs, s') \<Longrightarrow> reachable s'"
proof (induction n arbitrary: s rs)
  case 0
  then show ?case by simp
next
  case (Suc n)
  from Suc.prems(2) obtain r s1 rs' where
    a: "txrx s = Inr (r, s1)" and b: "ticks n s1 = Inr (rs', s')"
    by (auto split: sum.splits prod.splits)
  have "reachable s1" using Suc.prems(1) a by (rule reachable.by_txrx)
  then show ?case using b Suc.IH by blast
qed

lemma constructed_fresh: "constructed fresh"
  by (simp add: constructed_def fresh_def list_all_iff)

lemma reachable_device: "reachable (device ck h inp)"
  unfolding device_def
  by (intro reachable.by_setMsgHandler reachable.by_init reachable.start constructed_fresh)

text \<open>
  Claim C7, as amended. In every reachable state the inbound index is at most
  \<open>BUFFER_SIZE\<close>, the inbound array keeps its size, and no call of \<open>txrx\<close> accesses
  \<open>_in\<close> outside its bounds. The index does reach \<open>BUFFER_SIZE\<close>: the test
  \<open>_i < BUFFER_SIZE\<close> of the next call finds the overflow.
\<close>

theorem inbound_index_at_most_capacity:
  assumes "reachable s"
  shows "m_i s \<le> BUFFER_SIZE \<and> length (m_in s) = BUFFER_SIZE
     \<and> (\<forall>k. txrx s \<noteq> Inl (OutOfBounds Buf_in k))"
  using reachable_in [OF assms] txrx_no_in_fault by blast

text \<open>
  Claim C7 as stated fails: after 64 bytes without a terminator the index is 64.
\<close>

theorem inbound_index_reaches_capacity:
  "reachable (snd (projr (ticks 64 (device False 0 (replicate 64 97)))))
   \<and> m_i (snd (projr (ticks 64 (device False 0 (replicate 64 97))))) = BUFFER_SIZE"
proof -
  let ?r = "ticks 64 (device False 0 (replicate 64 97))"
  have "case ?r of Inr x \<Rightarrow> True | Inl f \<Rightarrow> False" by code_simp
  then obtain rs s where rs: "?r = Inr (rs, s)" by (cases ?r) auto
  have "reachable s" using reachable_device rs by (rule reachable_ticks)
  moreover have "m_i (snd (projr ?r)) = BUFFER_SIZE" by code_simp
  ultimately show ?thesis using rs by simp
qed

theorem inbound_index_at_most_capacity_witness:
  "reachable (snd (projr (ticks 3 (device True 7 (bytes_of ''abc'')))))
   \<and> m_i (snd (projr (ticks 3 (device True 7 (bytes_of ''abc''))))) = 3
   \<and> m_i (snd (projr (ticks 3 (device True 7 (bytes_of ''abc''))))) \<le> BUFFER_SIZE
   \<and> length (m_in (snd (projr (ticks 3 (device True 7 (bytes_of ''abc'')))))) = BUFFER_SIZE"
proof -
  let ?r = "ticks 3 (device True 7 (bytes_of ''abc''))"
  have "case ?r of Inr x \<Rightarrow> True | Inl f \<Rightarrow> False" by code_simp
  then obtain rs s where rs: "?r = Inr (rs, s)" by (cases ?r) auto
  have r: "reachable (snd (projr ?r))"
    using reachable_ticks [OF reachable_device rs] rs by simp
  have "m_i (snd (projr ?r)) = 3" by code_simp
  then show ?thesis
    using r inbound_index_at_most_capacity [OF r] by simp
qed

section \<open>The order of one tick, and the transmit pump\<close>

lemma deliver_trace:
  assumes "deliver s src = Inr s'"
  shows "m_port s' = m_port s \<and> m_msgHandler s' = m_msgHandler s \<and>
     (trace s' = trace s \<or> (\<exists>m. trace s' = trace s @ [HandlerCall (m_msgHandler s) m]))"
  using assms by (auto simp: deliver_def strcpy_def split: if_splits)

lemma bad_checksum_trace:
  assumes "bad_checksum s data rxsum = Inr s'"
  shows "m_port s' = m_port s \<and> m_msgHandler s' = m_msgHandler s \<and> trace s' = trace s"
  using assms by (auto simp: bad_checksum_def Let_def write_local_def split: if_splits)

lemma checked_frame_trace:
  assumes "checked_frame s = Inr s'"
  shows "m_port s' = m_port s \<and>
     (trace s' = trace s \<or> (\<exists>m. trace s' = trace s @ [HandlerCall (m_msgHandler s) m]))"
proof -
  let ?inb = "(m_in s)[m_i s - 2 := 0]"
  let ?s0 = "s\<lparr>m_in := ?inb\<rparr>"
  have "\<exists>s1. (deliver ?s0 (cstr ?inb) = Inr s1 \<or>
      bad_checksum ?s0 (cstr ?inb) (m_in s ! (m_i s - 2)) = Inr s1) \<and> s' = s1\<lparr>m_i := 0\<rparr>"
    using assms
    by (auto simp: checked_frame_def Let_def poke_def write_local_def split: if_splits sum.splits)
  then obtain s1 where "deliver ?s0 (cstr ?inb) = Inr s1 \<or>
      bad_checksum ?s0 (cstr ?inb) (m_in s ! (m_i s - 2)) = Inr s1" and s': "s' = s1\<lparr>m_i := 0\<rparr>"
    by blast
  then have "m_port s1 = m_port ?s0 \<and>
     (trace s1 = trace ?s0 \<or> (\<exists>m. trace s1 = trace ?s0 @ [HandlerCall (m_msgHandler ?s0) m]))"
    using deliver_trace bad_checksum_trace by blast
  then show ?thesis using s' by simp
qed

lemma plain_frame_trace:
  assumes "plain_frame s = Inr s'"
  shows "m_port s' = m_port s \<and>
     (trace s' = trace s \<or> (\<exists>m. trace s' = trace s @ [HandlerCall (m_msgHandler s) m]))"
proof -
  let ?inb = "(m_in s)[m_i s - 1 := 0]"
  have "deliver (s\<lparr>m_in := ?inb\<rparr>) ?inb = Inr s'"
    using assms by (auto simp: plain_frame_def poke_def split: if_splits)
  from deliver_trace [OF this] show ?thesis by simp
qed

lemma rx_part_trace:
  assumes "rx_part s = Inr s1" and "m_port s = Some p" and "length (m_in s) = BUFFER_SIZE"
  shows "\<exists>calls.
     trace s1 = trace s @
        (if m_i s < BUFFER_SIZE \<and> rx_fifo p \<noteq> [] then [PortRead (hd (rx_fifo p))] else []) @ calls
     \<and> (calls = [] \<or> (\<exists>m. calls = [HandlerCall (m_msgHandler s) m]))
     \<and> m_port s1 =
        Some (p\<lparr>rx_fifo := (if m_i s < BUFFER_SIZE \<and> rx_fifo p \<noteq> [] then tl (rx_fifo p)
                            else rx_fifo p)\<rparr>)"
proof (cases "m_i s < BUFFER_SIZE")
  case False
  then show ?thesis using assms by (auto simp: rx_part_overflow)
next
  case True
  show ?thesis
  proof (cases "rx_fifo p")
    case Nil
    then have "port_available s = 0" using assms(2) by (simp add: port_available_def)
    then show ?thesis using assms True Nil by (simp add: rx_part_idle)
  next
    case (Cons b rest)
    let ?s1 = "s\<lparr>m_port := Some (p\<lparr>rx_fifo := rest\<rparr>),
                      trace := trace s @ [PortRead b], m_in := (m_in s)[m_i s := b]\<rparr>"
    note rd = rx_part_read [OF True assms(2) Cons assms(3)]
    show ?thesis
    proof (cases "0 < m_i s \<and> b = MSG_END_B \<and> m_in s ! (m_i s - 1) = MSG_END_A")
      case False
      then have "s1 = ?s1\<lparr>m_i := m_i s + 1\<rparr>"
        using rd assms(1) by (simp split: if_splits)
      then show ?thesis using True Cons by simp
    next
      case bnd: True
      then have "\<exists>s2. (checked_frame ?s1 = Inr s2 \<or> plain_frame ?s1 = Inr s2) \<and> s1 = s2\<lparr>m_i := 0\<rparr>"
        using rd assms(1) by (auto split: if_splits sum.splits)
      then obtain s2 where "checked_frame ?s1 = Inr s2 \<or> plain_frame ?s1 = Inr s2"
        and s1: "s1 = s2\<lparr>m_i := 0\<rparr>" by blast
      then have "m_port s2 = m_port ?s1 \<and>
        (trace s2 = trace ?s1 \<or> (\<exists>m. trace s2 = trace ?s1 @ [HandlerCall (m_msgHandler ?s1) m]))"
        using checked_frame_trace plain_frame_trace by blast
      then show ?thesis using s1 True Cons by auto
    qed
  qed
qed

lemma port_available_port: "m_port s = Some p \<Longrightarrow> port_available s = length (rx_fifo p)"
  by (simp add: port_available_def)

text \<open>
  Claim C3, as amended. A call of \<open>txrx\<close> that returns reads at most one inbound byte:
  exactly one when \<open>_i < BUFFER_SIZE\<close> and a byte waits, none otherwise. The receive
  half runs first and ends in a state \<open>s1\<close>: the byte read, the handler call and the
  messages it queued are all in \<open>s1\<close>. The transmit half starts from \<open>s1\<close>, reads
  nothing, queues nothing, leaves the receive side alone and writes at most one byte,
  after everything the receive half did.
\<close>

theorem txrx_reads_one_byte_before_writing_one:
  assumes "txrx s = Inr (r, s')" and "m_port s = Some p" and "length (m_in s) = BUFFER_SIZE"
  shows "\<exists>s1 calls w.
     rx_part s = Inr s1 \<and> tx_part s1 = Inr (s'\<lparr>m_rx := r\<rparr>)
     \<and> trace s1 = trace s @
        (if m_i s < BUFFER_SIZE \<and> rx_fifo p \<noteq> [] then [PortRead (hd (rx_fifo p))] else []) @ calls
     \<and> (calls = [] \<or> (\<exists>m. calls = [HandlerCall (m_msgHandler s) m]))
     \<and> port_available s1 =
        length (rx_fifo p) - (if m_i s < BUFFER_SIZE \<and> rx_fifo p \<noteq> [] then 1 else 0)
     \<and> trace s' = trace s1 @ w \<and> (w = [] \<or> (\<exists>b. w = [PortWrite b]))
     \<and> port_available s' = port_available s1
     \<and> m_ob s' = m_ob s1 \<and> m_obi s' = m_obi s1 \<and> m_o s' \<le> m_o s1
     \<and> m_i s' = m_i s1 \<and> m_in s' = m_in s1 \<and> m_msg s' = m_msg s1"
proof -
  from txrx_halves [OF assms(1,2)] obtain s1 s2 where
    h: "rx_part s = Inr s1" "tx_part s1 = Inr s2" "r = m_rx s2" "s' = s2\<lparr>m_rx := False\<rparr>"
    by blast
  from rx_part_trace [OF h(1) assms(2,3)] obtain calls where
    c: "trace s1 = trace s @
        (if m_i s < BUFFER_SIZE \<and> rx_fifo p \<noteq> [] then [PortRead (hd (rx_fifo p))] else []) @ calls"
       "calls = [] \<or> (\<exists>m. calls = [HandlerCall (m_msgHandler s) m])"
       "m_port s1 =
        Some (p\<lparr>rx_fifo := (if m_i s < BUFFER_SIZE \<and> rx_fifo p \<noteq> [] then tl (rx_fifo p)
                            else rx_fifo p)\<rparr>)"
    by blast
  have av: "port_available s1 =
        length (rx_fifo p) - (if m_i s < BUFFER_SIZE \<and> rx_fifo p \<noteq> [] then 1 else 0)"
    using c(3) by (simp add: port_available_def)
  note f = tx_part_frame [OF h(2)]
  obtain w where w: "trace s2 = trace s1 @ w" "w = [] \<or> (\<exists>b. w = [PortWrite b])"
    using f by auto
  have restore: "s'\<lparr>m_rx := r\<rparr> = s2" using h(3,4) by simp
  have pa: "port_available s' = port_available s2"
    using h(4) by (simp add: port_available_def)
  show ?thesis
    apply (rule exI [of _ s1], rule exI [of _ calls], rule exI [of _ w])
    using h(1,2) c(1,2) av w f pa restore h(4) by simp
qed

text \<open>
  Claim C3 as stated fails: with two bytes reported available, one call of \<open>txrx\<close>
  reads the first and leaves the second waiting.
\<close>

theorem txrx_leaves_second_byte_waiting:
  "(case txrx (device False 0 [97, 98]) of
      Inr (r, s) \<Rightarrow> port_available s = 1 \<and> trace s = [PortRead 97]
    | Inl f \<Rightarrow> False)"
  by code_simp

theorem txrx_reads_one_byte_before_writing_one_witness:
  "txrx (snd (sendMsg (device False 7 (bytes_of ''xy'')) (bytes_of ''hi'')))
     = Inr (False, snd (projr (txrx (snd (sendMsg (device False 7 (bytes_of ''xy'')) (bytes_of ''hi''))))))
   \<and> m_port (snd (sendMsg (device False 7 (bytes_of ''xy'')) (bytes_of ''hi'')))
     = Some \<lparr>rx_fifo = bytes_of ''xy'', tx_free = 1000, baud = 9600\<rparr>
   \<and> length (m_in (snd (sendMsg (device False 7 (bytes_of ''xy'')) (bytes_of ''hi'')))) = BUFFER_SIZE
   \<and> (\<exists>s1 w. rx_part (snd (sendMsg (device False 7 (bytes_of ''xy'')) (bytes_of ''hi''))) = Inr s1
        \<and> port_available s1 = 1
        \<and> trace (snd (projr (txrx (snd (sendMsg (device False 7 (bytes_of ''xy'')) (bytes_of ''hi''))))))
            = trace s1 @ w
        \<and> (w = [] \<or> (\<exists>b. w = [PortWrite b])))"
proof -
  let ?S = "snd (sendMsg (device False 7 (bytes_of ''xy'')) (bytes_of ''hi''))"
  let ?P = "\<lparr>rx_fifo = bytes_of ''xy'', tx_free = 1000, baud = 9600\<rparr>"
  have h1: "txrx ?S = Inr (False, snd (projr (txrx ?S)))" by code_simp
  have h2: "m_port ?S = Some ?P" by code_simp
  have h3: "length (m_in ?S) = BUFFER_SIZE" by code_simp
  have i: "m_i ?S < BUFFER_SIZE" by code_simp
  have f: "rx_fifo ?P \<noteq> []" "length (rx_fifo ?P) = 2" by (simp_all add: bytes_of_def)
  from txrx_reads_one_byte_before_writing_one [OF h1 h2 h3] i f h1 h2 h3
  show ?thesis by auto
qed

lemma queued_after_dequeue:
  assumes "0 < m_o s" and "m_o s < length (m_out s)"
  shows "queued (s\<lparr>m_out := take (m_o s) (tl (m_out s)) @ drop (m_o s) (m_out s),
           m_o := m_o s - 1, m_txlen := 0, m_txb := 0\<rparr>) = tl (queued s)"
proof -
  have "take (m_o s - 1) (take (m_o s) (tl (m_out s)) @ drop (m_o s) (m_out s))
      = take (m_o s - 1) (tl (m_out s))"
    using assms by simp
  also have "\<dots> = tl (take (m_o s) (m_out s))"
    using assms by (simp add: tl_take)
  finally show ?thesis
    by (simp add: queued_def map_tl cong: option.case_cong)
qed

text \<open>
  Claim C4, as amended. The head of the queue points to a slot holding a string of
  fewer than \<open>BUFFER_SIZE\<close> bytes, the port has room, and \<open>flen\<close> is the length of
  the frame. While bytes of the frame remain, a call of the transmit half writes exactly
  one byte, the one the remaining-count rule selects, advances the offset by one and
  leaves the queue as it is. A call that finds the offset equal to the frame length,
  with fewer entries queued than the array holds, writes nothing: it moves the remaining
  entries down one place, decrements the size and resets the cursor to (0, 0).
\<close>

theorem tx_pump_writes_one_byte_and_dequeues_on_the_next_call:
  assumes "0 < m_o s" and "m_out s \<noteq> []" and "m_out s ! 0 = Some k" and "k < length (m_ob s)"
    and "strlen (m_ob s ! k) < BUFFER_SIZE"
    and "m_port s = Some p" and "0 < tx_free p"
    and "flen = strlen (m_ob s ! k) + (if m_useChecksum s then 3 else 2)"
    and "(m_txb s = 0 \<and> m_txlen s = 0) \<or> (m_txlen s = flen \<and> m_txb s \<le> flen)"
  shows "(m_txb s < flen \<longrightarrow>
           tx_part s =
             Inr (s\<lparr>m_txlen := flen, m_port := Some (p\<lparr>tx_free := tx_free p - 1\<rparr>),
                    trace := trace s @
                      [PortWrite (select_byte (m_useChecksum s) (cstr (m_ob s ! k))
                         (flen - m_txb s) (m_txb s))],
                    m_txb := m_txb s + 1\<rparr>))
     \<and> (m_txb s = flen \<longrightarrow> m_o s < length (m_out s) \<longrightarrow>
           tx_part s =
             Inr (s\<lparr>m_out := take (m_o s) (tl (m_out s)) @ drop (m_o s) (m_out s),
                    m_o := m_o s - 1, m_txlen := 0, m_txb := 0\<rparr>)
           \<and> queued (s\<lparr>m_out := take (m_o s) (tl (m_out s)) @ drop (m_o s) (m_out s),
                    m_o := m_o s - 1, m_txlen := 0, m_txb := 0\<rparr>) = tl (queued s))"
proof (intro conjI impI)
  assume lt: "m_txb s < flen"
  have hs: "head_slot s = Inr (m_ob s ! k)"
    using assms(2,3,4) by (rule head_slot_ok)
  have small: "strlen (m_ob s ! k) + 3 < 256"
    using assms(5) by (simp add: BUFFER_SIZE_def)
  have cur: "(m_txb s = 0 \<and> m_txlen s = 0) \<or> m_txlen s = flen"
    using assms(9) by blast
  show "tx_part s =
             Inr (s\<lparr>m_txlen := flen, m_port := Some (p\<lparr>tx_free := tx_free p - 1\<rparr>),
                    trace := trace s @
                      [PortWrite (select_byte (m_useChecksum s) (cstr (m_ob s ! k))
                         (flen - m_txb s) (m_txb s))],
                    m_txb := m_txb s + 1\<rparr>)"
    by (rule tx_part_send [OF assms(1) hs small assms(6,7,8) cur lt])
next
  assume eq: "m_txb s = flen" and room: "m_o s < length (m_out s)"
  have pos: "0 < flen" using assms(8) by simp
  then have a: "m_txlen s \<le> m_txb s" "m_txb s \<noteq> 0 \<or> m_txlen s \<noteq> 0"
    using assms(9) eq by auto
  show "tx_part s =
             Inr (s\<lparr>m_out := take (m_o s) (tl (m_out s)) @ drop (m_o s) (m_out s),
                    m_o := m_o s - 1, m_txlen := 0, m_txb := 0\<rparr>)"
    by (rule tx_part_dequeue [OF assms(1) a room])
next
  assume "m_o s < length (m_out s)"
  then show "queued (s\<lparr>m_out := take (m_o s) (tl (m_out s)) @ drop (m_o s) (m_out s),
                    m_o := m_o s - 1, m_txlen := 0, m_txb := 0\<rparr>) = tl (queued s)"
    using assms(1) by (intro queued_after_dequeue)
qed

text \<open>
  Claim C4 as stated fails: the call that writes the last byte of the frame of
  \<open>hi\<close> leaves the entry queued with the cursor at (4, 4), although the queue is not
  empty and the port has room; the fifth call writes nothing and dequeues.
\<close>

theorem tx_pump_keeps_head_after_last_byte:
  "(case ticks 4 (snd (sendMsg (device False 0 []) (bytes_of ''hi''))) of
      Inr (rs, s) \<Rightarrow>
        trace s = map PortWrite (bytes_of ''hi'' @ [MSG_END_A, MSG_END_B])
        \<and> m_txb s = 4 \<and> m_txlen s = 4 \<and> m_o s = 1 \<and> port_availableForWrite s = 996
    | Inl f \<Rightarrow> False)
   \<and> (case ticks 5 (snd (sendMsg (device False 0 []) (bytes_of ''hi''))) of
      Inr (rs, s) \<Rightarrow>
        trace s = map PortWrite (bytes_of ''hi'' @ [MSG_END_A, MSG_END_B])
        \<and> m_txb s = 0 \<and> m_txlen s = 0 \<and> m_o s = 0
    | Inl f \<Rightarrow> False)"
  by code_simp

theorem tx_pump_writes_one_byte_and_dequeues_on_the_next_call_witness:
  "trace (projr (tx_part (snd (sendMsg (device True 0 []) (bytes_of ''ab''))))) = [PortWrite 97]
   \<and> m_txb (projr (tx_part (snd (sendMsg (device True 0 []) (bytes_of ''ab''))))) = 1
   \<and> m_o (projr (tx_part (snd (sendMsg (device True 0 []) (bytes_of ''ab''))))) = 1
   \<and> m_txb (snd (projr (ticks 5 (snd (sendMsg (device True 0 []) (bytes_of ''ab'')))))) = 5
   \<and> m_o (projr (tx_part (snd (projr (ticks 5 (snd (sendMsg (device True 0 []) (bytes_of ''ab'')))))))) = 0
   \<and> queued (projr (tx_part (snd (projr (ticks 5 (snd (sendMsg (device True 0 []) (bytes_of ''ab'')))))))) = []"
proof -
  let ?S = "snd (sendMsg (device True 0 []) (bytes_of ''ab''))"
  let ?P = "\<lparr>rx_fifo = [], tx_free = 1000, baud = 9600\<rparr>"
  let ?T = "snd (projr (ticks 5 ?S))"
  let ?Q = "\<lparr>rx_fifo = [], tx_free = 995, baud = 9600\<rparr>"
  have a: "0 < m_o ?S" "m_out ?S \<noteq> []" "m_out ?S ! 0 = Some 0" "0 < length (m_ob ?S)"
    "strlen (m_ob ?S ! 0) < BUFFER_SIZE" "m_port ?S = Some ?P" "0 < tx_free ?P"
    "5 = strlen (m_ob ?S ! 0) + (if m_useChecksum ?S then 3 else 2)"
    "(m_txb ?S = 0 \<and> m_txlen ?S = 0) \<or> (m_txlen ?S = 5 \<and> m_txb ?S \<le> 5)"
    by code_simp+
  have a': "m_txb ?S < 5" "trace ?S = []" "m_o ?S = 1" "m_txb ?S = 0"
    "select_byte (m_useChecksum ?S) (cstr (m_ob ?S ! 0)) (5 - m_txb ?S) (m_txb ?S) = 97"
    by code_simp+
  have b: "0 < m_o ?T" "m_out ?T \<noteq> []" "m_out ?T ! 0 = Some 0" "0 < length (m_ob ?T)"
    "strlen (m_ob ?T ! 0) < BUFFER_SIZE" "m_port ?T = Some ?Q" "0 < tx_free ?Q"
    "5 = strlen (m_ob ?T ! 0) + (if m_useChecksum ?T then 3 else 2)"
    "(m_txb ?T = 0 \<and> m_txlen ?T = 0) \<or> (m_txlen ?T = 5 \<and> m_txb ?T \<le> 5)"
    by code_simp+
  have b': "m_txb ?T = 5" "m_o ?T < length (m_out ?T)" "m_o ?T = 1" "queued ?T = [bytes_of ''ab'']"
    by code_simp+
  note first = tx_pump_writes_one_byte_and_dequeues_on_the_next_call [OF a]
  note second = tx_pump_writes_one_byte_and_dequeues_on_the_next_call [OF b]
  have "tx_part ?S =
      Inr (?S\<lparr>m_txlen := 5, m_port := Some (?P\<lparr>tx_free := tx_free ?P - 1\<rparr>),
              trace := trace ?S @
                [PortWrite (select_byte (m_useChecksum ?S) (cstr (m_ob ?S ! 0)) (5 - m_txb ?S) (m_txb ?S))],
              m_txb := m_txb ?S + 1\<rparr>)"
    using first a'(1) by blast
  then have one: "trace (projr (tx_part ?S)) = [PortWrite 97]" "m_txb (projr (tx_part ?S)) = 1"
    "m_o (projr (tx_part ?S)) = 1"
    using a' by simp_all
  have "tx_part ?T =
      Inr (?T\<lparr>m_out := take (m_o ?T) (tl (m_out ?T)) @ drop (m_o ?T) (m_out ?T),
              m_o := m_o ?T - 1, m_txlen := 0, m_txb := 0\<rparr>)
      \<and> queued (?T\<lparr>m_out := take (m_o ?T) (tl (m_out ?T)) @ drop (m_o ?T) (m_out ?T),
              m_o := m_o ?T - 1, m_txlen := 0, m_txb := 0\<rparr>) = tl (queued ?T)"
    using second b'(1,2) by blast
  then have two: "m_o (projr (tx_part ?T)) = 0" "queued (projr (tx_part ?T)) = []"
    using b' by simp_all
  show ?thesis using one two b'(1) by simp
qed

section \<open>Frames that end at a terminator\<close>

lemma cstr_append_zero: "cstr (xs @ 0 # ys) = cstr xs"
  by (induction xs) (simp_all add: cstr_def)

lemma cstr_upd_zero: "k < length buf \<Longrightarrow> cstr (buf[k := 0]) = cstr (take k buf)"
  by (simp add: upd_conv_take_nth_drop cstr_append_zero)

lemma strlen_take: "strlen (take k buf) \<le> k"
  using strlen_le_length [of "take k buf"] by simp

lemma deliver_ok:
  assumes "strlen src < length (m_msg s)"
  shows "deliver s src =
    Inr (s\<lparr>m_rx := True, m_msg := store_str (m_msg s) (cstr src),
           trace := trace s @
             (if m_msgHandler s \<noteq> 0 then [HandlerCall (m_msgHandler s) (cstr src)] else [])\<rparr>)"
  using assms by (simp add: deliver_def strcpy_def cstr_store_str cstr_no_zero)

lemma plain_frame_ok:
  assumes "0 < m_i s" and "m_i s \<le> length (m_in s)" and "m_i s \<le> length (m_msg s)"
  shows "plain_frame s =
    Inr (s\<lparr>m_in := (m_in s)[m_i s - 1 := 0], m_rx := True,
           m_msg := store_str (m_msg s) (cstr (take (m_i s - 1) (m_in s))),
           trace := trace s @
             (if m_msgHandler s \<noteq> 0
              then [HandlerCall (m_msgHandler s) (cstr (take (m_i s - 1) (m_in s)))] else [])\<rparr>)"
proof -
  let ?inb = "(m_in s)[m_i s - 1 := 0]"
  have k: "m_i s - 1 < length (m_in s)" using assms by simp
  have c: "cstr ?inb = cstr (take (m_i s - 1) (m_in s))"
    using k by (rule cstr_upd_zero)
  have "strlen ?inb \<le> m_i s - 1"
    unfolding strlen_def c using strlen_take [of "m_i s - 1" "m_in s"] by (simp add: strlen_def)
  then have "strlen ?inb < length (m_msg (s\<lparr>m_in := ?inb\<rparr>))"
    using assms by simp
  from deliver_ok [OF this] show ?thesis
    using k by (simp add: plain_frame_def poke_def c [unfolded One_nat_def])
qed

lemma checked_frame_good:
  assumes "2 < m_i s" and "m_i s \<le> length (m_in s)" and "length (m_msg s) = BUFFER_SIZE"
    and "data = cstr (take (m_i s - 2) (m_in s))"
    and "length data < BUFFER_SIZE - 3"
    and "m_in s ! (m_i s - 2) = checkSum data"
  shows "checked_frame s =
    Inr (s\<lparr>m_in := (m_in s)[m_i s - 2 := 0], m_rx := True,
           m_msg := store_str (m_msg s) data,
           trace := trace s @
             (if m_msgHandler s \<noteq> 0 then [HandlerCall (m_msgHandler s) data] else []),
           m_i := 0\<rparr>)"
proof -
  let ?inb = "(m_in s)[m_i s - 2 := 0]"
  have k: "m_i s - 2 < length (m_in s)" using assms by simp
  have c: "cstr ?inb = data"
    using cstr_upd_zero [OF k] assms(4) by simp
  have dd: "cstr data = data" using assms(4) by simp
  have "strlen data < length (m_msg (s\<lparr>m_in := ?inb\<rparr>))"
    using assms(3,5) by (simp add: strlen_def dd)
  from deliver_ok [OF this] show ?thesis
    using k assms(5,6) by (simp add: checked_frame_def poke_def write_local_def c Let_def dd)
qed

lemma checked_frame_bad:
  assumes "2 < m_i s" and "m_i s \<le> length (m_in s)"
    and "data = cstr (take (m_i s - 2) (m_in s))"
    and "rxsum = m_in s ! (m_i s - 2)"
    and "length data < BUFFER_SIZE - 3"
    and "rxsum \<noteq> checkSum data"
    and "length (dec (unat rxsum)) < 3"
  shows "checked_frame s =
    Inr (snd (sendMsg (snd (sendMsg (snd (sendMsg (s\<lparr>m_in := (m_in s)[m_i s - 2 := 0]\<rparr>)
            RX_BAD_CHECKSUM))
            (bytes_of ''!'' @ data)))
            (bytes_of ''!got ['' @ dec (unat rxsum) @ bytes_of '']''))
         \<lparr>m_i := 0\<rparr>)"
proof -
  let ?inb = "(m_in s)[m_i s - 2 := 0]"
  have k: "m_i s - 2 < length (m_in s)" using assms by simp
  have c: "cstr ?inb = data"
    using cstr_upd_zero [OF k] assms(3) by simp
  have b1: "write_local Buf_buf 64 (bytes_of ''!'' @ data) = Inr (bytes_of ''!'' @ data)"
    using assms(5) by (simp add: write_local_def bytes_of_def BUFFER_SIZE_def)
  have b2: "write_local Buf_sum 10 (bytes_of ''!got ['' @ dec (unat rxsum) @ bytes_of '']'')
      = Inr (bytes_of ''!got ['' @ dec (unat rxsum) @ bytes_of '']'')"
    using assms(7) by (simp add: write_local_def bytes_of_def)
  show ?thesis
    using k assms(5,6)
    by (simp add: checked_frame_def poke_def write_local_def [of Buf_data] c Let_def
        bad_checksum_def b1 b2 assms(4) [symmetric])
qed

section \<open>Queueing a message\<close>

lemma digit_not_nul: "k < 10 \<Longrightarrow> (of_nat (48 + k) :: byte) \<noteq> 0"
proof
  assume k: "k < 10" and "(of_nat (48 + k) :: byte) = 0"
  then have "2 ^ LENGTH(8) dvd 48 + k"
    by (simp only: word_of_nat_eq_0_iff)
  then have "256 \<le> 48 + k"
    by (auto dest!: dvd_imp_le)
  then show False using k by simp
qed

lemma dec_no_zero: "0 \<notin> set (dec n)"
proof (induction n rule: dec.induct)
  case (1 n)
  show ?case
  proof (cases "n < 10")
    case True
    then show ?thesis using digit_not_nul [of n] by (subst dec.simps) auto
  next
    case False
    have "n mod 10 < 10" by simp
    then have "(of_nat (48 + n mod 10) :: byte) \<noteq> 0" by (rule digit_not_nul)
    then show ?thesis using False "1.IH" by (subst dec.simps) auto
  qed
qed

lemma dec_length: "n < 100 \<Longrightarrow> length (dec n) < 3"
proof -
  assume n: "n < 100"
  show ?thesis
  proof (cases "n < 10")
    case True
    then show ?thesis by (subst dec.simps) simp
  next
    case False
    have "n div 10 < 10" using n by simp
    then have "length (dec (n div 10)) = 1" by (subst dec.simps) simp
    then show ?thesis using False by (subst dec.simps) simp
  qed
qed

lemma below_4: "(a::nat) < 4 \<Longrightarrow> a = 0 \<or> a = 1 \<or> a = 2 \<or> a = 3"
  by arith

lemma ring_arith:
  fixes a n j :: nat
  assumes "a < 4" and "n < 4" and "j < n"
  shows "(a + 4 - n + j) mod 4 \<noteq> a"
proof -
  have j: "j < 4" using assms by simp
  show ?thesis
    using below_4 [OF assms(1)] below_4 [OF assms(2)] below_4 [OF j] assms(3)
    by (elim disjE; simp)
qed

lemma ring_arith_step:
  fixes a n j :: nat
  assumes "a < 4" and "n < 4" and "j < n"
  shows "((if a < 3 then a + 1 else 0) + 4 - (n + 1) + j) mod 4 = (a + 4 - n + j) mod 4"
proof -
  have j: "j < 4" using assms by simp
  show ?thesis
    using below_4 [OF assms(1)] below_4 [OF assms(2)] below_4 [OF j] assms(3)
    by (elim disjE; simp)
qed

lemma ring_arith_last:
  fixes a n :: nat
  assumes "a < 4" and "n < 4"
  shows "((if a < 3 then a + 1 else 0) + 4 - (n + 1) + n) mod 4 = a"
  using below_4 [OF assms(1)] below_4 [OF assms(2)]
  by (elim disjE; simp)

lemma queued_sendMsg:
  assumes "ring s" and "m_o s < TX_QUEUE_SIZE" and "0 \<notin> set msg" and "length msg < BUFFER_SIZE"
  shows "fst (sendMsg s msg) = 1 \<and> queued (snd (sendMsg s msg)) = queued s @ [msg]
     \<and> ring (snd (sendMsg s msg)) \<and> m_o (snd (sendMsg s msg)) = m_o s + 1"
proof -
  let ?o = "m_o s" and ?obi = "m_obi s"
  let ?ob' = "(m_ob s)[?obi := store_str (m_ob s ! ?obi) msg]"
  let ?out' = "(m_out s)[?o := Some ?obi]"
  let ?obi' = "if ?obi < 3 then ?obi + 1 else 0"
  let ?f = "\<lambda>e. case e of Some k \<Rightarrow> cstr (m_ob s ! k) | None \<Rightarrow> []"
  let ?f' = "\<lambda>e. case e of Some k \<Rightarrow> cstr (?ob' ! k) | None \<Rightarrow> []"
  have r: "length (m_out s) = 4" "length (m_ob s) = 4" "?obi < 4" "?o < 4"
    using assms(1,2) by (simp_all add: ring_def TX_QUEUE_SIZE_def)
  have r5: "m_out s ! j = Some ((?obi + 4 - ?o + j) mod 4)" if "j < ?o" for j
    using assms(1) that by (simp add: ring_def TX_QUEUE_SIZE_def)
  have c: "cstr msg = msg" using assms(3) by (rule cstr_no_nul)
  have len: "strlen msg mod 256 < BUFFER_SIZE" "take (BUFFER_SIZE - 1) (cstr msg) = msg"
    using assms(4) by (simp_all add: strlen_def c BUFFER_SIZE_def)
  have st: "snd (sendMsg s msg) =
      s\<lparr>m_out := ?out', m_ob := ?ob', m_o := ?o + 1, m_obi := ?obi'\<rparr>"
    using sendMsg_success_state [OF assms(2) len(1)] len(2) by (simp add: TX_QUEUE_SIZE_def)
  have ok: "fst (sendMsg s msg) = 1"
    using assms(2) len(1) by (simp add: sendMsg_success)
  have tk: "take (?o + 1) ?out' = take ?o (m_out s) @ [Some ?obi]"
    using r(1,4) by (simp add: take_Suc_conv_app_nth)
  have old: "?f' e = ?f e" if "e \<in> set (take ?o (m_out s))" for e
  proof -
    from that obtain j where j: "j < ?o" "e = m_out s ! j"
      using r(1,4) by (auto simp: in_set_conv_nth)
    then have e: "e = Some ((?obi + 4 - ?o + j) mod 4)" using r5 by simp
    have "(?obi + 4 - ?o + j) mod 4 \<noteq> ?obi"
      using r(3,4) j(1) by (rule ring_arith)
    then show ?thesis unfolding e by simp
  qed
  have m: "map ?f' (take ?o (m_out s)) = map ?f (take ?o (m_out s))"
    using old by (intro map_cong [OF refl])
  have new: "?f' (Some ?obi) = msg"
    using r(2,3) assms(3) by (simp add: cstr_store_str)
  have "queued (s\<lparr>m_out := ?out', m_ob := ?ob', m_o := ?o + 1, m_obi := ?obi'\<rparr>)
      = map ?f' (take (?o + 1) ?out')"
    by (simp add: queued_def cong: option.case_cong)
  also have "\<dots> = map ?f' (take ?o (m_out s)) @ [?f' (Some ?obi)]"
    unfolding tk by simp
  also have "\<dots> = queued s @ [msg]"
    unfolding m new by (simp add: queued_def)
  finally have q: "queued (snd (sendMsg s msg)) = queued s @ [msg]"
    unfolding st .
  have ent: "?out' ! j = Some ((?obi' + 4 - (?o + 1) + j) mod 4)" if "j < ?o + 1" for j
  proof (cases "j = ?o")
    case True
    have "(?obi' + 4 - (?o + 1) + ?o) mod 4 = ?obi"
      using r(3,4) by (rule ring_arith_last)
    then show ?thesis using True r(1,4) by simp
  next
    case False
    then have j: "j < ?o" using that by simp
    have "(?obi' + 4 - (?o + 1) + j) mod 4 = (?obi + 4 - ?o + j) mod 4"
      using r(3,4) j by (rule ring_arith_step)
    then show ?thesis using False r5 [OF j] by simp
  qed
  have o': "?obi' < 4" using r(3) by simp
  have rg: "ring (s\<lparr>m_out := ?out', m_ob := ?ob', m_o := ?o + 1, m_obi := ?obi'\<rparr>)"
    unfolding ring_def TX_QUEUE_SIZE_def
    using r o' ent by simp
  show ?thesis using ok q rg st by simp
qed

section \<open>A frame with a bad checksum\<close>

lemma notice_strings:
  "0 \<notin> set RX_BAD_CHECKSUM" "length RX_BAD_CHECKSUM = 16"
  "0 \<notin> set RX_BUFFER_OVERFLOW" "length RX_BUFFER_OVERFLOW = 16"
  by (simp_all add: RX_BAD_CHECKSUM_def RX_BUFFER_OVERFLOW_def bytes_of_def)

text \<open>
  Claim C6, as amended. A checksummed frame ends (\<open>MSG_END_B\<close> arrives after
  \<open>MSG_END_A\<close>, with \<open>_i > 2\<close>), its payload has fewer than \<open>BUFFER_SIZE - 3\<close>
  bytes, and the checksum byte received is below 100 and differs from the checksum of
  the payload. Then the message is discarded: \<open>_msg\<close> and \<open>_rx\<close> stay as they were
  and the handler is not called. \<open>sendMsg\<close> is called three times, in this order: with
  the fixed notice \<open>RX_BAD_CHECKSUM\<close>, with \<open>!\<close> followed by the payload, and with
  \<open>!got [n]\<close> for the checksum byte \<open>n\<close> received. When the queue has room for
  three more entries, these three strings are appended to it in that order.
\<close>

theorem bad_checksum_queues_three_diagnostics:
  assumes "m_useChecksum s" and "m_port s = Some p" and "rx_fifo p = MSG_END_B # rest"
    and "2 < m_i s" and "m_i s < BUFFER_SIZE" and "length (m_in s) = BUFFER_SIZE"
    and "m_in s ! (m_i s - 1) = MSG_END_A"
    and "payload = cstr (take (m_i s - 2) (m_in s))"
    and "rxsum = m_in s ! (m_i s - 2)"
    and "rxsum \<noteq> checkSum payload"
    and "length payload < BUFFER_SIZE - 3" and "unat rxsum < 100"
  shows "rx_part s =
      Inr (snd (sendMsg (snd (sendMsg (snd (sendMsg
             (s\<lparr>m_port := Some (p\<lparr>rx_fifo := rest\<rparr>),
                trace := trace s @ [PortRead MSG_END_B],
                m_in := (m_in s)[m_i s := MSG_END_B, m_i s - 2 := 0]\<rparr>)
             RX_BAD_CHECKSUM))
             (bytes_of ''!'' @ payload)))
             (bytes_of ''!got ['' @ dec (unat rxsum) @ bytes_of '']''))
           \<lparr>m_i := 0\<rparr>)
     \<and> m_rx (projr (rx_part s)) = m_rx s
     \<and> m_msg (projr (rx_part s)) = m_msg s
     \<and> trace (projr (rx_part s)) = trace s @ [PortRead MSG_END_B]
     \<and> (ring s \<and> m_o s + 3 \<le> TX_QUEUE_SIZE \<longrightarrow>
          queued (projr (rx_part s)) =
            queued s @ [RX_BAD_CHECKSUM, bytes_of ''!'' @ payload,
                        bytes_of ''!got ['' @ dec (unat rxsum) @ bytes_of '']''])"
proof -
  let ?s1 = "s\<lparr>m_port := Some (p\<lparr>rx_fifo := rest\<rparr>),
              trace := trace s @ [PortRead MSG_END_B], m_in := (m_in s)[m_i s := MSG_END_B]\<rparr>"
  let ?s0 = "s\<lparr>m_port := Some (p\<lparr>rx_fifo := rest\<rparr>),
              trace := trace s @ [PortRead MSG_END_B],
              m_in := (m_in s)[m_i s := MSG_END_B, m_i s - 2 := 0]\<rparr>"
  let ?d2 = "bytes_of ''!'' @ payload"
  let ?d3 = "bytes_of ''!got ['' @ dec (unat rxsum) @ bytes_of '']''"
  let ?a = "snd (sendMsg ?s0 RX_BAD_CHECKSUM)"
  let ?b = "snd (sendMsg ?a ?d2)"
  let ?c = "snd (sendMsg ?b ?d3)"
  have i1: "2 < m_i ?s1" "m_i ?s1 \<le> length (m_in ?s1)"
    using assms(4,5,6) by simp_all
  have pl: "payload = cstr (take (m_i ?s1 - 2) (m_in ?s1))"
    using assms(4,8) by simp
  have rs: "rxsum = m_in ?s1 ! (m_i ?s1 - 2)"
    using assms(4,9) by simp
  have dl: "length (dec (unat rxsum)) < 3"
    using assms(12) by (rule dec_length)
  have cf: "checked_frame ?s1 = Inr (?c\<lparr>m_i := 0\<rparr>)"
    using checked_frame_bad [OF i1 pl rs assms(11,10) dl] by simp
  have rp: "rx_part s = Inr (?c\<lparr>m_i := 0\<rparr>)"
    unfolding rx_part_read [OF assms(5,2,3,6)] using assms(1,4,7) cf by simp
  have q: "queued (?c\<lparr>m_i := 0\<rparr>) = queued s @ [RX_BAD_CHECKSUM, ?d2, ?d3]"
    if "ring s" and "m_o s + 3 \<le> TX_QUEUE_SIZE"
  proof -
    have r0: "ring ?s0" using that(1) by (simp add: ring_def)
    have q0: "queued ?s0 = queued s" by (simp add: queued_def cong: option.case_cong)
    have n1: "0 \<notin> set RX_BAD_CHECKSUM" "length RX_BAD_CHECKSUM < BUFFER_SIZE"
      by (simp_all add: notice_strings BUFFER_SIZE_def)
    have n2: "0 \<notin> set ?d2" "length ?d2 < BUFFER_SIZE"
      using assms(8,11) cstr_no_zero by (auto simp: bytes_of_def)
    have n3: "0 \<notin> set ?d3" "length ?d3 < BUFFER_SIZE"
      using dl dec_no_zero by (auto simp: bytes_of_def BUFFER_SIZE_def)
    have o0: "m_o ?s0 < TX_QUEUE_SIZE" using that(2) by simp
    note A = queued_sendMsg [OF r0 o0 n1]
    have oa: "m_o ?a < TX_QUEUE_SIZE" using A that(2) by simp
    note B = queued_sendMsg [OF _ oa n2]
    have ob: "m_o ?b < TX_QUEUE_SIZE" using A B that(2) by simp
    note C = queued_sendMsg [OF _ ob n3]
    have "queued ?c = queued s @ [RX_BAD_CHECKSUM, ?d2, ?d3]"
      using A B C q0 by simp
    then show ?thesis by (simp add: queued_def cong: option.case_cong)
  qed
  show ?thesis
    unfolding rp using q by simp
qed

text \<open>
  Claim C6 as stated fails twice. The fixed notice \<open>!rx badchecksum!\<close> does start with
  \<open>!\<close>. And with two messages already queued only the first two diagnostics are
  queued: the third call of \<open>sendMsg\<close> finds the queue full.
\<close>

theorem bad_checksum_notice_starts_with_bang:
  "take 1 RX_BAD_CHECKSUM = bytes_of ''!''
   \<and> (case ticks 5 (snd (sendMsg (snd (sendMsg
             (device True 7 (bytes_of ''ab'' @ [0, MSG_END_A, MSG_END_B]))
             (bytes_of ''hello''))) (bytes_of ''world''))) of
         Inr (rs, s) \<Rightarrow>
           queued s = [bytes_of ''hello'', bytes_of ''world'', RX_BAD_CHECKSUM, bytes_of ''!ab'']
       | Inl f \<Rightarrow> False)"
  by code_simp

theorem bad_checksum_queues_three_diagnostics_witness:
  "m_useChecksum (snd (projr (ticks 4 (device True 7 (bytes_of ''ab'' @ [0, MSG_END_A, MSG_END_B])))))
   \<and> m_i (snd (projr (ticks 4 (device True 7 (bytes_of ''ab'' @ [0, MSG_END_A, MSG_END_B]))))) = 4
   \<and> cstr (take 2 (m_in (snd (projr (ticks 4 (device True 7 (bytes_of ''ab'' @ [0, MSG_END_A, MSG_END_B])))))))
       = bytes_of ''ab''
   \<and> m_in (snd (projr (ticks 4 (device True 7 (bytes_of ''ab'' @ [0, MSG_END_A, MSG_END_B]))))) ! 2 = 0
   \<and> checkSum (bytes_of ''ab'') = 195
   \<and> trace (projr (rx_part (snd (projr (ticks 4 (device True 7 (bytes_of ''ab'' @ [0, MSG_END_A, MSG_END_B])))))))
       = map PortRead (bytes_of ''ab'' @ [0, MSG_END_A, MSG_END_B])
   \<and> queued (projr (rx_part (snd (projr (ticks 4 (device True 7 (bytes_of ''ab'' @ [0, MSG_END_A, MSG_END_B])))))))
       = [RX_BAD_CHECKSUM, bytes_of ''!ab'', bytes_of ''!got [0]'']"
proof -
  let ?S = "snd (projr (ticks 4 (device True 7 (bytes_of ''ab'' @ [0, MSG_END_A, MSG_END_B]))))"
  let ?P = "\<lparr>rx_fifo = [MSG_END_B], tx_free = 1000, baud = 9600\<rparr>"
  have h: "m_useChecksum ?S" "m_port ?S = Some ?P" "rx_fifo ?P = MSG_END_B # []"
    "2 < m_i ?S" "m_i ?S < BUFFER_SIZE" "length (m_in ?S) = BUFFER_SIZE"
    "m_in ?S ! (m_i ?S - 1) = MSG_END_A"
    "bytes_of ''ab'' = cstr (take (m_i ?S - 2) (m_in ?S))"
    "0 = m_in ?S ! (m_i ?S - 2)"
    "0 \<noteq> checkSum (bytes_of ''ab'')"
    "length (bytes_of ''ab'') < BUFFER_SIZE - 3" "unat (0 :: byte) < 100"
    by code_simp+
  have v: "m_i ?S = 4" "trace ?S = map PortRead (bytes_of ''ab'' @ [0, MSG_END_A])"
    "queued ?S = []" "checkSum (bytes_of ''ab'') = 195" "dec (unat (0 :: byte)) = bytes_of ''0''"
    by code_simp+
  have f: "length (m_out ?S) = TX_QUEUE_SIZE" "length (m_ob ?S) = TX_QUEUE_SIZE"
    "m_obi ?S = 0" "m_o ?S = 0"
    by code_simp+
  have rg: "ring ?S \<and> m_o ?S + 3 \<le> TX_QUEUE_SIZE"
    using f by (simp add: ring_def TX_QUEUE_SIZE_def)
  note t = bad_checksum_queues_three_diagnostics [OF h]
  have "trace (projr (rx_part ?S)) = trace ?S @ [PortRead MSG_END_B]"
    and "queued (projr (rx_part ?S)) =
      queued ?S @ [RX_BAD_CHECKSUM, bytes_of ''!'' @ bytes_of ''ab'',
                   bytes_of ''!got ['' @ dec (unat (0 :: byte)) @ bytes_of '']'']"
    using t rg by blast+
  then have "trace (projr (rx_part ?S)) = map PortRead (bytes_of ''ab'' @ [0, MSG_END_A, MSG_END_B])"
    and "queued (projr (rx_part ?S)) = [RX_BAD_CHECKSUM, bytes_of ''!ab'', bytes_of ''!got [0]'']"
    using v by (simp_all add: bytes_of_def)
  then show ?thesis using h(1,8,9) v(1,4) by simp
qed

section \<open>Feeding bytes that complete no frame\<close>

lemma ticks_append:
  "ticks (m + n) s =
     (case ticks m s of
        Inl f \<Rightarrow> Inl f
      | Inr (rs, s1) \<Rightarrow>
          (case ticks n s1 of Inl f \<Rightarrow> Inl f | Inr (rs', s2) \<Rightarrow> Inr (rs @ rs', s2)))"
  by (induction m arbitrary: s) (auto split: sum.splits prod.splits)

lemma ticks_then:
  assumes "ticks m s = Inr (rs, s1)" and "ticks n s1 = Inr (rs', s2)"
  shows "ticks (m + n) s = Inr (rs @ rs', s2)"
  using assms by (simp add: ticks_append)

lemma ticks_one: "txrx s = Inr (r, s1) \<Longrightarrow> ticks (Suc 0) s = Inr ([r], s1)"
  by simp

lemma txrx_rx_only:
  assumes "m_port s = Some p" and "rx_part s = Inr s1" and "m_o s1 = 0"
  shows "txrx s = Inr (m_rx s1, s1\<lparr>m_rx := False\<rparr>)"
  using txrx_compose [OF assms(1,2) tx_part_empty [OF assms(3)]] .

lemma txrx_plain_byte:
  assumes "m_port s = Some p" and "rx_fifo p = x # rest" and "m_o s = 0" and "\<not> m_rx s"
    and "length (m_in s) = BUFFER_SIZE" and "m_i s < BUFFER_SIZE"
    and "\<not> (0 < m_i s \<and> x = MSG_END_B \<and> m_in s ! (m_i s - 1) = MSG_END_A)"
  shows "txrx s =
    Inr (False, s\<lparr>m_port := Some (p\<lparr>rx_fifo := rest\<rparr>), trace := trace s @ [PortRead x],
                   m_in := (m_in s)[m_i s := x], m_i := m_i s + 1\<rparr>)"
proof -
  let ?s1 = "s\<lparr>m_port := Some (p\<lparr>rx_fifo := rest\<rparr>), trace := trace s @ [PortRead x],
                   m_in := (m_in s)[m_i s := x], m_i := m_i s + 1\<rparr>"
  have rp: "rx_part s = Inr ?s1"
    unfolding rx_part_read [OF assms(6,1,2,5)] using assms(7) by (simp only: if_False)
  have o: "m_o ?s1 = 0" using assms(3) by simp
  have rxf: "m_rx ?s1 = False" using assms(4) by simp
  have same: "?s1\<lparr>m_rx := False\<rparr> = ?s1" using assms(4) by simp
  show ?thesis
    using txrx_rx_only [OF assms(1) rp o] unfolding rxf same .
qed

lemma feed_plain_bytes:
  assumes "m_port s = Some p" and "rx_fifo p = xs @ rest" and "m_o s = 0" and "\<not> m_rx s"
    and "length (m_in s) = BUFFER_SIZE" and "m_i s + length xs \<le> BUFFER_SIZE"
    and "no_boundary (if 0 < m_i s then Some (m_in s ! (m_i s - 1)) else None) xs"
  shows "ticks (length xs) s =
    Inr (replicate (length xs) False,
         s\<lparr>m_port := Some (p\<lparr>rx_fifo := rest\<rparr>), trace := trace s @ map PortRead xs,
           m_in := take (m_i s) (m_in s) @ xs @ drop (m_i s + length xs) (m_in s),
           m_i := m_i s + length xs\<rparr>)"
  using assms
proof (induction xs arbitrary: s p)
  case Nil
  then have "s\<lparr>m_port := Some (p\<lparr>rx_fifo := rest\<rparr>)\<rparr> = s" by simp
  then show ?case by simp
next
  case (Cons x xs)
  let ?s1 = "s\<lparr>m_port := Some (p\<lparr>rx_fifo := xs @ rest\<rparr>), trace := trace s @ [PortRead x],
                   m_in := (m_in s)[m_i s := x], m_i := m_i s + 1\<rparr>"
  have i: "m_i s < BUFFER_SIZE" using Cons.prems(6) by simp
  have nb: "\<not> (0 < m_i s \<and> x = MSG_END_B \<and> m_in s ! (m_i s - 1) = MSG_END_A)"
    using Cons.prems(7) by (auto split: if_splits)
  have f: "rx_fifo p = x # (xs @ rest)" using Cons.prems(2) by simp
  have t1: "txrx s = Inr (False, ?s1)"
    by (rule txrx_plain_byte [OF Cons.prems(1) f Cons.prems(3,4,5) i nb])
  have nb': "no_boundary (if 0 < m_i ?s1 then Some (m_in ?s1 ! (m_i ?s1 - 1)) else None) xs"
    using Cons.prems(5,7) i by simp
  have rest: "ticks (length xs) ?s1 =
    Inr (replicate (length xs) False,
         ?s1\<lparr>m_port := Some (p\<lparr>rx_fifo := xs @ rest\<rparr>\<lparr>rx_fifo := rest\<rparr>),
             trace := trace ?s1 @ map PortRead xs,
             m_in := take (m_i ?s1) (m_in ?s1) @ xs @ drop (m_i ?s1 + length xs) (m_in ?s1),
             m_i := m_i ?s1 + length xs\<rparr>)"
    using Cons.prems(3,4,5,6) nb'
    by (intro Cons.IH) simp_all
  have l1: "take (Suc (m_i s)) ((m_in s)[m_i s := x]) = take (m_i s) (m_in s) @ [x]"
    using i Cons.prems(5) by (simp add: take_Suc_conv_app_nth)
  show ?case
    using t1 rest l1 by simp
qed

section \<open>Overflow of the inbound buffer\<close>

lemma no_boundary_Some: "no_boundary (Some a) xs = (\<not> term_pair_in (a # xs))"
  by (induction xs arbitrary: a) auto

lemma no_boundary_None: "no_boundary None xs = (\<not> term_pair_in xs)"
  by (cases xs) (simp_all add: no_boundary_Some)

lemma queued_cursor [simp]:
  "queued (s\<lparr>m_txlen := n\<rparr>) = queued s"
  "queued (s\<lparr>m_txb := n\<rparr>) = queued s"
  "queued (s\<lparr>m_port := q\<rparr>) = queued s"
  "queued (s\<lparr>trace := t\<rparr>) = queued s"
  "queued (s\<lparr>m_rx := r\<rparr>) = queued s"
  "queued (s\<lparr>m_i := i\<rparr>) = queued s"
  "queued (s\<lparr>m_in := b\<rparr>) = queued s"
  "queued (s\<lparr>m_msg := b\<rparr>) = queued s"
  by (simp_all add: queued_def cong: option.case_cong)

lemma ring_cursor [simp]:
  "ring (s\<lparr>m_txlen := n\<rparr>) = ring s"
  "ring (s\<lparr>m_txb := n\<rparr>) = ring s"
  "ring (s\<lparr>m_port := q\<rparr>) = ring s"
  "ring (s\<lparr>trace := t\<rparr>) = ring s"
  "ring (s\<lparr>m_rx := r\<rparr>) = ring s"
  "ring (s\<lparr>m_i := i\<rparr>) = ring s"
  "ring (s\<lparr>m_in := b\<rparr>) = ring s"
  "ring (s\<lparr>m_msg := b\<rparr>) = ring s"
  by (simp_all add: ring_def)

lemma head_slot_after_sendMsg:
  assumes "ring s" and "m_o s = 0" and "0 \<notin> set msg" and "length msg < BUFFER_SIZE"
  shows "head_slot (snd (sendMsg s msg)) = Inr (store_str (m_ob s ! m_obi s) msg)"
proof -
  have r: "length (m_out s) = 4" "length (m_ob s) = 4" "m_obi s < 4"
    using assms(1) by (simp_all add: ring_def TX_QUEUE_SIZE_def)
  have c: "cstr msg = msg" using assms(3) by (rule cstr_no_nul)
  have len: "strlen msg mod 256 < BUFFER_SIZE" "take (BUFFER_SIZE - 1) (cstr msg) = msg"
    using assms(4) by (simp_all add: strlen_def c BUFFER_SIZE_def)
  have o: "m_o s < TX_QUEUE_SIZE" using assms(2) by (simp add: TX_QUEUE_SIZE_def)
  show ?thesis
    unfolding sendMsg_success_state [OF o len(1)] len(2)
    using r assms(2) by (simp add: head_slot_def)
qed

lemma head_slot_rx_fields [simp]:
  "head_slot (s\<lparr>m_port := q\<rparr>) = head_slot s"
  "head_slot (s\<lparr>trace := t\<rparr>) = head_slot s"
  "head_slot (s\<lparr>m_rx := r\<rparr>) = head_slot s"
  "head_slot (s\<lparr>m_i := i\<rparr>) = head_slot s"
  "head_slot (s\<lparr>m_in := b\<rparr>) = head_slot s"
  "head_slot (s\<lparr>m_msg := b\<rparr>) = head_slot s"
  by (simp_all add: head_slot_def split: option.splits)

lemma select_byte_payload:
  "3 < remaining \<Longrightarrow> select_byte ck payload remaining offset = payload ! offset"
  by (simp add: select_byte_def)

text \<open>
  Claim C8, as amended. A receiver with index 0, an empty queue and an idle cursor is
  fed \<open>BUFFER_SIZE\<close> bytes that hold no terminator, one per tick. No tick reports a
  message, and afterwards the index is \<open>BUFFER_SIZE\<close> and nothing is queued. The next
  tick reads no byte (what waits in the port keeps waiting), resets the index to 0 and
  queues exactly one entry, the overflow notice, whose first byte goes out in the same
  tick when the port has room. No message is delivered (\<open>_msg\<close> is unchanged, the handler
  is not called, the tick returns false) and no call faults, so no array is accessed
  outside its bounds.
\<close>

theorem overflow_after_capacity_bytes:
  assumes "m_port s = Some p" and "rx_fifo p = xs @ rest" and "length xs = BUFFER_SIZE"
    and "\<not> term_pair_in xs"
    and "m_i s = 0" and "\<not> m_rx s" and "length (m_in s) = BUFFER_SIZE"
    and "ring s" and "m_o s = 0" and "m_txb s = 0" and "m_txlen s = 0"
  shows "\<exists>s1 s2. ticks BUFFER_SIZE s = Inr (replicate BUFFER_SIZE False, s1)
      \<and> m_i s1 = BUFFER_SIZE \<and> queued s1 = [] \<and> trace s1 = trace s @ map PortRead xs
      \<and> txrx s1 = Inr (False, s2)
      \<and> m_i s2 = 0 \<and> queued s2 = [RX_BUFFER_OVERFLOW] \<and> m_msg s2 = m_msg s
      \<and> port_available s2 = length rest
      \<and> trace s2 = trace s1 @ (if 0 < tx_free p then [PortWrite (of_char CHR ''!'')] else [])"
proof -
  let ?s1 = "s\<lparr>m_port := Some (p\<lparr>rx_fifo := rest\<rparr>), trace := trace s @ map PortRead xs,
           m_in := take (m_i s) (m_in s) @ xs @ drop (m_i s + length xs) (m_in s),
           m_i := m_i s + length xs\<rparr>"
  let ?q = "p\<lparr>rx_fifo := rest\<rparr>"
  have nb: "no_boundary (if 0 < m_i s then Some (m_in s ! (m_i s - 1)) else None) xs"
    using assms(4,5) by (simp add: no_boundary_None)
  have fit: "m_i s + length xs \<le> BUFFER_SIZE" using assms(3,5) by simp
  have t1: "ticks BUFFER_SIZE s = Inr (replicate BUFFER_SIZE False, ?s1)"
    using feed_plain_bytes [OF assms(1,2,9,6,7) fit nb] assms(3) by simp
  have i1: "m_i ?s1 = BUFFER_SIZE" using assms(3,5) by simp
  have q1: "queued ?s1 = []" using assms(9) by (simp add: queued_def)
  let ?sa = "snd (sendMsg (?s1\<lparr>m_i := 0\<rparr>) RX_BUFFER_OVERFLOW)"
  have rp: "rx_part ?s1 = Inr ?sa"
    using i1 by (intro rx_part_overflow) simp
  have r1: "ring (?s1\<lparr>m_i := 0\<rparr>)" using assms(8) by simp
  have o1: "m_o (?s1\<lparr>m_i := 0\<rparr>) < TX_QUEUE_SIZE" "m_o (?s1\<lparr>m_i := 0\<rparr>) = 0"
    using assms(9) by (simp_all add: TX_QUEUE_SIZE_def)
  have n: "0 \<notin> set RX_BUFFER_OVERFLOW" "length RX_BUFFER_OVERFLOW < BUFFER_SIZE"
    by (simp_all add: notice_strings BUFFER_SIZE_def)
  note A = queued_sendMsg [OF r1 o1(1) n]
  have qa: "queued ?sa = [RX_BUFFER_OVERFLOW]" using A q1 by simp
  have oa: "0 < m_o ?sa" using A by simp
  let ?slot = "store_str (m_ob s ! m_obi s) RX_BUFFER_OVERFLOW"
  have hs: "head_slot ?sa = Inr ?slot"
    using head_slot_after_sendMsg [OF r1 o1(2) n] by simp
  have cs: "cstr ?slot = RX_BUFFER_OVERFLOW"
    using n(1) by (rule cstr_store_str)
  have sl: "strlen ?slot = 16" by (simp add: strlen_def cs notice_strings)
  have small: "strlen ?slot + 3 < 256" by (simp add: sl)
  have pa: "m_port ?sa = Some ?q" by simp
  let ?flen = "strlen ?slot + (if m_useChecksum ?sa then 3 else 2)"
  have cur: "(m_txb ?sa = 0 \<and> m_txlen ?sa = 0) \<or> m_txlen ?sa = ?flen"
    using assms(10,11) by simp
  have lt: "m_txb ?sa < ?flen" using assms(10) by simp
  have "select_byte (m_useChecksum ?sa) (cstr ?slot) (?flen - m_txb ?sa) (m_txb ?sa)
      = cstr ?slot ! 0"
    using assms(10) by (simp add: select_byte_payload sl)
  also have "\<dots> = RX_BUFFER_OVERFLOW ! 0" by (simp only: cs)
  also have "\<dots> = of_char CHR ''!''"
    by (simp add: RX_BUFFER_OVERFLOW_def bytes_of_def)
  finally have first:
    "select_byte (m_useChecksum ?sa) (cstr ?slot) (?flen - m_txb ?sa) (m_txb ?sa)
      = of_char CHR ''!''" .
  show ?thesis
  proof (cases "0 < tx_free p")
    case True
    then have tf: "0 < tx_free ?q" by simp
    let ?sb = "?sa\<lparr>m_txlen := ?flen, m_port := Some (?q\<lparr>tx_free := tx_free ?q - 1\<rparr>),
           trace := trace ?sa @ [PortWrite (of_char CHR ''!'')], m_txb := m_txb ?sa + 1\<rparr>"
    have tp: "tx_part ?sa = Inr ?sb"
      using tx_part_send [OF oa hs small pa tf refl cur lt] unfolding first .
    have t2: "txrx ?s1 = Inr (m_rx ?sb, ?sb\<lparr>m_rx := False\<rparr>)"
      by (rule txrx_compose [OF _ rp tp]) simp
    have "m_rx ?sb = False" using assms(6) by simp
    then have t2': "txrx ?s1 = Inr (False, ?sb\<lparr>m_rx := False\<rparr>)" using t2 by simp
    show ?thesis
      apply (rule exI [of _ ?s1], rule exI [of _ "?sb\<lparr>m_rx := False\<rparr>"])
      using t1 i1 q1 t2' qa True by (simp add: port_available_def)
  next
    case False
    then have tf: "tx_free ?q = 0" by simp
    let ?sb = "?sa\<lparr>m_txlen := ?flen\<rparr>"
    have tp: "tx_part ?sa = Inr ?sb"
      by (rule tx_part_blocked [OF oa hs small pa tf refl cur lt])
    have t2: "txrx ?s1 = Inr (m_rx ?sb, ?sb\<lparr>m_rx := False\<rparr>)"
      by (rule txrx_compose [OF _ rp tp]) simp
    have "m_rx ?sb = False" using assms(6) by simp
    then have t2': "txrx ?s1 = Inr (False, ?sb\<lparr>m_rx := False\<rparr>)" using t2 by simp
    show ?thesis
      apply (rule exI [of _ ?s1], rule exI [of _ "?sb\<lparr>m_rx := False\<rparr>"])
      using t1 i1 q1 t2' qa False by (simp add: port_available_def)
  qed
qed

text \<open>
  Claim C8 as stated fails: after \<open>BUFFER_SIZE\<close> bytes without a terminator the index
  is 64, not 0, and no notice is queued yet.
\<close>

theorem no_overflow_notice_after_capacity_bytes:
  "(case ticks 64 (device False 7 (replicate 64 97)) of
      Inr (rs, s) \<Rightarrow> m_i s = 64 \<and> m_o s = 0 \<and> queued s = []
    | Inl f \<Rightarrow> False)"
  by code_simp

theorem overflow_after_capacity_bytes_witness:
  "\<not> term_pair_in (replicate 64 97)
   \<and> (\<exists>s1 s2.
        ticks BUFFER_SIZE (device False 7 (replicate 64 97 @ [98]))
          = Inr (replicate BUFFER_SIZE False, s1)
        \<and> m_i s1 = BUFFER_SIZE \<and> queued s1 = []
        \<and> txrx s1 = Inr (False, s2)
        \<and> m_i s2 = 0 \<and> queued s2 = [RX_BUFFER_OVERFLOW] \<and> port_available s2 = 1
        \<and> trace s2 = map PortRead (replicate 64 97) @ [PortWrite 33])"
proof -
  let ?D = "device False 7 (replicate 64 97 @ [98])"
  let ?P = "\<lparr>rx_fifo = replicate 64 97 @ [98], tx_free = 1000, baud = 9600\<rparr>"
  have h: "m_port ?D = Some ?P" "rx_fifo ?P = replicate 64 97 @ [98]"
    "length (replicate 64 (97 :: byte)) = BUFFER_SIZE"
    "\<not> term_pair_in (replicate 64 97)"
    "m_i ?D = 0" "\<not> m_rx ?D" "length (m_in ?D) = BUFFER_SIZE"
    by code_simp+
  have f: "length (m_out ?D) = TX_QUEUE_SIZE" "length (m_ob ?D) = TX_QUEUE_SIZE"
    "m_obi ?D = 0" "m_o ?D = 0" "m_txb ?D = 0" "m_txlen ?D = 0" "trace ?D = []"
    by code_simp+
  have rg: "ring ?D" using f by (simp add: ring_def TX_QUEUE_SIZE_def)
  from overflow_after_capacity_bytes [OF h rg f(4,5,6)] f(7) h(4)
  show ?thesis by auto
qed

section \<open>Sending a frame\<close>

lemma length_frame: "length (frame ck P) = length P + (if ck then 3 else 2)"
  by (simp add: frame_def)

lemma select_byte_frame:
  assumes "j < length (frame ck P)"
  shows "select_byte ck P (length (frame ck P) - j) j = frame ck P ! j"
proof (cases "j < length P")
  case True
  then show ?thesis
    by (auto simp: select_byte_def frame_def nth_append)
next
  case False
  show ?thesis
  proof (cases ck)
    case True
    then consider "j = length P" | "j = length P + 1" | "j = length P + 2"
      using assms False by (fastforce simp: length_frame)
    then show ?thesis
      using True by cases (simp_all add: select_byte_def frame_def nth_append)
  next
    case ckF: False
    then consider "j = length P" | "j = length P + 1"
      using assms False by (fastforce simp: length_frame)
    then show ?thesis
      using ckF by cases (simp_all add: select_byte_def frame_def nth_append)
  qed
qed

lemma pump_bytes:
  assumes "m_port s = Some p" and "rx_fifo p = []" and "m_i s < BUFFER_SIZE" and "\<not> m_rx s"
    and "0 < m_o s" and "head_slot s = Inr slot" and "strlen slot + 3 < 256"
    and "flen = length (frame (m_useChecksum s) (cstr slot))"
    and "(m_txb s = 0 \<and> m_txlen s = 0) \<or> m_txlen s = flen"
    and "m_txb s + n \<le> flen" and "n \<le> tx_free p"
  shows "ticks n s =
    Inr (replicate n False,
         s\<lparr>m_txlen := (if n = 0 then m_txlen s else flen),
           m_port := Some (p\<lparr>tx_free := tx_free p - n\<rparr>),
           trace := trace s @
             map PortWrite (take n (drop (m_txb s) (frame (m_useChecksum s) (cstr slot)))),
           m_txb := m_txb s + n\<rparr>)"
  using assms
proof (induction n arbitrary: s p)
  case 0
  then have "s\<lparr>m_port := Some p\<rparr> = s" by simp
  then show ?case by simp
next
  case (Suc n)
  let ?fr = "frame (m_useChecksum s) (cstr slot)"
  let ?p1 = "p\<lparr>tx_free := tx_free p - 1\<rparr>"
  let ?s1 = "s\<lparr>m_txlen := flen, m_port := Some ?p1,
           trace := trace s @ [PortWrite (?fr ! m_txb s)], m_txb := m_txb s + 1\<rparr>"
  have fl: "flen = strlen slot + (if m_useChecksum s then 3 else 2)"
    using Suc.prems(8) by (simp add: length_frame strlen_def)
  have lt: "m_txb s < flen" using Suc.prems(10) by simp
  have tf: "0 < tx_free p" using Suc.prems(11) by simp
  have sb: "select_byte (m_useChecksum s) (cstr slot) (flen - m_txb s) (m_txb s) = ?fr ! m_txb s"
    using lt unfolding Suc.prems(8) by (rule select_byte_frame)
  have tp: "tx_part s = Inr ?s1"
    using tx_part_send [OF Suc.prems(5,6,7,1) tf fl Suc.prems(9) lt] unfolding sb .
  have av: "port_available s = 0"
    using Suc.prems(1,2) by (simp add: port_available_def)
  have rp: "rx_part s = Inr s"
    using Suc.prems(3) av by (rule rx_part_idle)
  have t1: "txrx s = Inr (False, ?s1)"
    using txrx_compose [OF Suc.prems(1) rp tp] Suc.prems(4) by simp
  have rest: "ticks n ?s1 =
    Inr (replicate n False,
         ?s1\<lparr>m_txlen := (if n = 0 then m_txlen ?s1 else flen),
           m_port := Some (?p1\<lparr>tx_free := tx_free ?p1 - n\<rparr>),
           trace := trace ?s1 @
             map PortWrite (take n (drop (m_txb ?s1) (frame (m_useChecksum ?s1) (cstr slot)))),
           m_txb := m_txb ?s1 + n\<rparr>)"
    using Suc.prems by (intro Suc.IH) simp_all
  have l: "take (Suc n) (drop (m_txb s) ?fr) = ?fr ! m_txb s # take n (drop (Suc (m_txb s)) ?fr)"
    using lt Suc.prems(8) by (simp add: Cons_nth_drop_Suc [symmetric])
  show ?case
    using t1 rest l by simp
qed

lemma send_frame:
  assumes "0 \<notin> set P" and "length P < BUFFER_SIZE"
    and "m_useChecksum s = ck" and "m_port s = Some p" and "rx_fifo p = []"
    and "length (frame ck P) \<le> tx_free p"
    and "m_i s < BUFFER_SIZE" and "\<not> m_rx s"
    and "ring s" and "m_o s = 0" and "m_txb s = 0" and "m_txlen s = 0"
  shows "fst (sendMsg s P) = 1
     \<and> (\<exists>s'. ticks (length (frame ck P)) (snd (sendMsg s P))
              = Inr (replicate (length (frame ck P)) False, s')
            \<and> trace s' = trace s @ map PortWrite (frame ck P)
            \<and> queued s' = [P] \<and> m_txb s' = length (frame ck P)
            \<and> m_txlen s' = length (frame ck P))"
proof -
  let ?sa = "snd (sendMsg s P)"
  let ?slot = "store_str (m_ob s ! m_obi s) P"
  let ?n = "length (frame ck P)"
  have o: "m_o s < TX_QUEUE_SIZE" using assms(10) by (simp add: TX_QUEUE_SIZE_def)
  note A = queued_sendMsg [OF assms(9) o assms(1,2)]
  have q0: "queued s = []" using assms(10) by (simp add: queued_def)
  have hs: "head_slot ?sa = Inr ?slot"
    by (rule head_slot_after_sendMsg [OF assms(9,10,1,2)])
  have cs: "cstr ?slot = P" using assms(1) by (rule cstr_store_str)
  have small: "strlen ?slot + 3 < 256"
    using assms(2) by (simp add: strlen_def cs BUFFER_SIZE_def)
  have fl: "?n = length (frame (m_useChecksum ?sa) (cstr ?slot))"
    using assms(3) by (simp add: cs)
  have pre: "m_port ?sa = Some p" "m_i ?sa < BUFFER_SIZE" "\<not> m_rx ?sa" "0 < m_o ?sa"
    "(m_txb ?sa = 0 \<and> m_txlen ?sa = 0) \<or> m_txlen ?sa = ?n" "m_txb ?sa + ?n \<le> ?n"
    using assms A by simp_all
  have pos: "?n \<noteq> 0" by (simp add: length_frame)
  have "ticks ?n ?sa =
    Inr (replicate ?n False,
         ?sa\<lparr>m_txlen := (if ?n = 0 then m_txlen ?sa else ?n),
           m_port := Some (p\<lparr>tx_free := tx_free p - ?n\<rparr>),
           trace := trace ?sa @
             map PortWrite (take ?n (drop (m_txb ?sa) (frame (m_useChecksum ?sa) (cstr ?slot)))),
           m_txb := m_txb ?sa + ?n\<rparr>)"
    by (rule pump_bytes [OF pre(1) assms(5) pre(2,3,4) hs small fl pre(5,6) assms(6)])
  then have "ticks ?n ?sa =
    Inr (replicate ?n False,
         ?sa\<lparr>m_txlen := ?n, m_port := Some (p\<lparr>tx_free := tx_free p - ?n\<rparr>),
           trace := trace s @ map PortWrite (frame ck P), m_txb := ?n\<rparr>)"
    using pos assms(3,11) by (simp add: cs)
  then show ?thesis
    using A q0 by simp
qed

section \<open>Receiving a frame\<close>

lemma no_boundary_append:
  "no_boundary prev (xs @ ys) =
     (no_boundary prev xs \<and> no_boundary (if xs = [] then prev else Some (last xs)) ys)"
  by (induction xs arbitrary: prev) auto

lemma final_tick:
  assumes "m_port s = Some q" and "rx_fifo q = MSG_END_B # rest" and "m_o s = 0"
    and "length (m_in s) = BUFFER_SIZE" and "length (m_msg s) = BUFFER_SIZE"
    and "m_i s < BUFFER_SIZE"
    and "take (m_i s) (m_in s) = P @ (if m_useChecksum s then [checkSum P] else []) @ [MSG_END_A]"
    and "0 \<notin> set P" and "m_useChecksum s \<Longrightarrow> length P < BUFFER_SIZE - 3"
  shows "\<exists>s'. txrx s = Inr (True, s')
     \<and> trace s' = trace s @ PortRead MSG_END_B #
          (if m_msgHandler s \<noteq> 0 then [HandlerCall (m_msgHandler s) P] else [])
     \<and> m_msg s' = store_str (m_msg s) P \<and> m_i s' = 0
     \<and> m_port s' = Some (q\<lparr>rx_fifo := rest\<rparr>) \<and> \<not> m_rx s' \<and> m_o s' = 0"
proof -
  let ?xs = "P @ (if m_useChecksum s then [checkSum P] else []) @ [MSG_END_A]"
  let ?i = "m_i s"
  let ?s1 = "s\<lparr>m_port := Some (q\<lparr>rx_fifo := rest\<rparr>),
              trace := trace s @ [PortRead MSG_END_B], m_in := (m_in s)[?i := MSG_END_B]\<rparr>"
  have cP: "cstr P = P" using assms(8) by (rule cstr_no_nul)
  have "length (take ?i (m_in s)) = ?i" using assms(4,6) by simp
  then have i: "?i = length ?xs" unfolding assms(7) by simp
  have nth: "m_in s ! k = ?xs ! k" if "k < ?i" for k
    using that nth_take [of k ?i "m_in s"] unfolding assms(7) by simp
  have tk: "take k ((m_in s)[?i := MSG_END_B]) = take k ?xs" if "k \<le> ?i" for k
  proof -
    have "take k ((m_in s)[?i := MSG_END_B]) = take k (m_in s)" using that by simp
    also have "\<dots> = take k (take ?i (m_in s))" using that by (simp add: min_def)
    finally show ?thesis unfolding assms(7) .
  qed
  have ipos: "0 < ?i" using i by simp
  have "m_in s ! (?i - 1) = ?xs ! (?i - 1)" using ipos by (intro nth) simp
  also have "\<dots> = MSG_END_A" unfolding i by (simp add: nth_append)
  finally have prevA: "m_in s ! (?i - 1) = MSG_END_A" .
  have rd: "rx_part s =
      (case (if m_useChecksum s \<and> 2 < ?i then checked_frame ?s1 else plain_frame ?s1) of
         Inl f \<Rightarrow> Inl f | Inr s2 \<Rightarrow> Inr (s2\<lparr>m_i := 0\<rparr>))"
    unfolding rx_part_read [OF assms(6,1,2,4)] using ipos prevA by simp
  let ?call = "if m_msgHandler s \<noteq> 0 then [HandlerCall (m_msgHandler s) P] else []"
  have key: "\<exists>s2. rx_part s = Inr s2 \<and> m_rx s2 \<and> m_o s2 = 0
      \<and> trace s2 = trace s @ PortRead MSG_END_B # ?call
      \<and> m_msg s2 = store_str (m_msg s) P \<and> m_i s2 = 0
      \<and> m_port s2 = Some (q\<lparr>rx_fifo := rest\<rparr>)"
  proof (cases "m_useChecksum s \<and> 2 < ?i")
    case True
    then have ck: "m_useChecksum s" and big: "2 < ?i" by simp_all
    have iP: "?i = length P + 2" using i ck by simp
    have a1: "2 < m_i ?s1" "m_i ?s1 \<le> length (m_in ?s1)" "length (m_msg ?s1) = BUFFER_SIZE"
      using big assms(4,5,6) by simp_all
    have "take (?i - 2) ((m_in s)[?i := MSG_END_B]) = take (?i - 2) ?xs"
      by (intro tk) simp
    then have a2: "P = cstr (take (m_i ?s1 - 2) (m_in ?s1))"
      using iP cP by simp
    have a3: "length P < BUFFER_SIZE - 3" using assms(9) ck by simp
    have "m_in s ! (?i - 2) = ?xs ! (?i - 2)" using big by (intro nth) simp
    then have a4: "m_in ?s1 ! (m_i ?s1 - 2) = checkSum P"
      using iP ck by (simp add: nth_append)
    show ?thesis
      unfolding rd if_P [OF True] using checked_frame_good [OF a1 a2 a3 a4] assms(3)
      by (simp cong: if_cong)
  next
    case False
    have a1: "0 < m_i ?s1" "m_i ?s1 \<le> length (m_in ?s1)" "m_i ?s1 \<le> length (m_msg ?s1)"
      using ipos assms(4,5,6) by simp_all
    have t1: "take (?i - 1) ((m_in s)[?i := MSG_END_B]) = take (?i - 1) ?xs"
      by (intro tk) simp
    have "cstr (take (?i - 1) ?xs) = P"
    proof (cases "m_useChecksum s")
      case True
      then have "P = []" using False i by (cases P) simp_all
      then show ?thesis using True i by (simp add: checkSum_def cstr_def)
    next
      case ckF: False
      then show ?thesis using i cP by simp
    qed
    then have a2: "cstr (take (m_i ?s1 - 1) (m_in ?s1)) = P"
      using t1 by simp
    show ?thesis
      unfolding rd if_not_P [OF False] using plain_frame_ok [OF a1] a2 assms(3)
      by (simp cong: if_cong)
  qed
  then obtain s2 where s2: "rx_part s = Inr s2" "m_rx s2" "m_o s2 = 0"
      "trace s2 = trace s @ PortRead MSG_END_B # ?call"
      "m_msg s2 = store_str (m_msg s) P" "m_i s2 = 0"
      "m_port s2 = Some (q\<lparr>rx_fifo := rest\<rparr>)"
    by blast
  have "txrx s = Inr (True, s2\<lparr>m_rx := False\<rparr>)"
    using txrx_rx_only [OF assms(1) s2(1,3)] s2(2) by simp
  then show ?thesis using s2 by simp
qed

lemma ends_differ: "MSG_END_A \<noteq> MSG_END_B"
  by (simp add: MSG_END_A_def MSG_END_B_def)

lemma receive_frame:
  assumes "0 \<notin> set P" and "\<not> term_pair_in P"
    and "length P \<le> (if ck then BUFFER_SIZE - 4 else BUFFER_SIZE - 2)"
    and "\<not> (ck \<and> P \<noteq> [] \<and> last P = MSG_END_A \<and> checkSum P = MSG_END_B)"
    and "m_useChecksum s = ck" and "m_port s = Some q" and "rx_fifo q = frame ck P @ rest"
    and "m_i s = 0" and "\<not> m_rx s" and "m_o s = 0"
    and "length (m_in s) = BUFFER_SIZE" and "length (m_msg s) = BUFFER_SIZE"
  shows "\<exists>s'. ticks (length (frame ck P)) s
            = Inr (replicate (length (frame ck P) - 1) False @ [True], s')
     \<and> trace s' = trace s @ map PortRead (frame ck P) @
          (if m_msgHandler s \<noteq> 0 then [HandlerCall (m_msgHandler s) P] else [])
     \<and> cstr (getMsg s') = P \<and> m_i s' = 0 \<and> port_available s' = length rest
     \<and> m_o s' = 0"
proof -
  let ?tail = "(if ck then [checkSum P] else []) @ [MSG_END_A]"
  let ?xs = "P @ ?tail"
  have fr: "frame ck P = ?xs @ [MSG_END_B]" by (simp add: frame_def)
  have lx: "length (frame ck P) = length ?xs + 1" unfolding fr by simp
  have fifo: "rx_fifo q = ?xs @ (MSG_END_B # rest)" using assms(7) fr by simp
  have nbP: "no_boundary None P" using assms(2) by (simp add: no_boundary_None)
  have nbT: "no_boundary (if P = [] then None else Some (last P)) ?tail"
    using assms(4) ends_differ by auto
  have nb0: "no_boundary None ?xs"
    using nbP nbT by (simp only: no_boundary_append)
  have nb: "no_boundary (if 0 < m_i s then Some (m_in s ! (m_i s - 1)) else None) ?xs"
    using nb0 assms(8) by simp
  have fit: "m_i s + length ?xs \<le> BUFFER_SIZE"
    using assms(3,8) by (simp add: BUFFER_SIZE_def split: if_splits)
  let ?s1 = "s\<lparr>m_port := Some (q\<lparr>rx_fifo := MSG_END_B # rest\<rparr>),
           trace := trace s @ map PortRead ?xs,
           m_in := take (m_i s) (m_in s) @ ?xs @ drop (m_i s + length ?xs) (m_in s),
           m_i := m_i s + length ?xs\<rparr>"
  have t1: "ticks (length ?xs) s = Inr (replicate (length ?xs) False, ?s1)"
    by (rule feed_plain_bytes [OF assms(6) fifo assms(10,9,11) fit nb])
  have b: "m_port ?s1 = Some (q\<lparr>rx_fifo := MSG_END_B # rest\<rparr>)"
    "rx_fifo (q\<lparr>rx_fifo := MSG_END_B # rest\<rparr>) = MSG_END_B # rest"
    "m_o ?s1 = 0" "length (m_in ?s1) = BUFFER_SIZE" "length (m_msg ?s1) = BUFFER_SIZE"
    using assms(8,10,11,12) fit by simp_all
  have b6: "m_i ?s1 < BUFFER_SIZE"
    using assms(3,8) by (simp add: BUFFER_SIZE_def split: if_splits)
  have b7: "take (m_i ?s1) (m_in ?s1)
      = P @ (if m_useChecksum ?s1 then [checkSum P] else []) @ [MSG_END_A]"
    using assms(5,8) by simp
  have b9: "m_useChecksum ?s1 \<Longrightarrow> length P < BUFFER_SIZE - 3"
    using assms(3,5) by (simp add: BUFFER_SIZE_def split: if_splits)
  from final_tick [OF b(1,2,3,4,5) b6 b7 assms(1) b9]
  obtain s' where s': "txrx ?s1 = Inr (True, s')"
      "trace s' = trace ?s1 @ PortRead MSG_END_B #
          (if m_msgHandler ?s1 \<noteq> 0 then [HandlerCall (m_msgHandler ?s1) P] else [])"
      "m_msg s' = store_str (m_msg ?s1) P" "m_i s' = 0"
      "m_port s' = Some (q\<lparr>rx_fifo := MSG_END_B # rest\<rparr>\<lparr>rx_fifo := rest\<rparr>)"
      "\<not> m_rx s'" "m_o s' = 0"
    by blast
  have t2: "ticks (length ?xs + 1) s = Inr (replicate (length ?xs) False @ [True], s')"
    unfolding One_nat_def by (rule ticks_then [OF t1 ticks_one [OF s'(1)]])
  have tr: "trace s' = trace s @ map PortRead (frame ck P) @
          (if m_msgHandler s \<noteq> 0 then [HandlerCall (m_msgHandler s) P] else [])"
    unfolding s'(2) fr by (simp cong: if_cong)
  have msg: "cstr (getMsg s') = P"
    unfolding getMsg_def s'(3) using assms(1) by (rule cstr_store_str)
  have pa: "port_available s' = length rest"
    using s'(5) by (simp add: port_available_def)
  show ?thesis
    apply (rule exI [of _ s'])
    using t2 tr msg s'(4,7) pa unfolding lx by simp
qed

section \<open>From sender to receiver\<close>

text \<open>
  Claim C1, as amended. \<open>P\<close> is a string (no NUL byte) without the terminator, of at
  most \<open>BUFFER_SIZE - 2\<close> bytes without checksum and \<open>BUFFER_SIZE - 4\<close> bytes with it,
  and in checksum mode it does not end in \<open>MSG_END_A\<close> with a checksum equal to
  \<open>MSG_END_B\<close>. The sender is idle (empty queue, cursor (0, 0), nothing to receive) and
  its port has room for the frame: \<open>sendMsg\<close> accepts \<open>P\<close>, and as many ticks as the
  frame has bytes write exactly the frame \<open>Payload [Checksum] MSG_END_A MSG_END_B\<close>. The
  receiver is idle in the same mode and its port holds those bytes: as many ticks read
  them one per tick, only the last tick reports a message, the handler (when one is
  registered) is called exactly once, with \<open>P\<close>, and \<open>getMsg\<close> holds \<open>P\<close>.
\<close>

theorem frame_roundtrip:
  assumes "0 \<notin> set P" and "\<not> term_pair_in P"
    and "length P \<le> (if ck then BUFFER_SIZE - 4 else BUFFER_SIZE - 2)"
    and "\<not> (ck \<and> P \<noteq> [] \<and> last P = MSG_END_A \<and> checkSum P = MSG_END_B)"
    and "m_useChecksum tx = ck" and "m_port tx = Some p" and "rx_fifo p = []"
    and "length (frame ck P) \<le> tx_free p"
    and "m_i tx < BUFFER_SIZE" and "\<not> m_rx tx"
    and "ring tx" and "m_o tx = 0" and "m_txb tx = 0" and "m_txlen tx = 0"
    and "m_useChecksum rx = ck" and "m_port rx = Some q" and "rx_fifo q = frame ck P"
    and "m_i rx = 0" and "\<not> m_rx rx" and "m_o rx = 0"
    and "length (m_in rx) = BUFFER_SIZE" and "length (m_msg rx) = BUFFER_SIZE"
  shows "fst (sendMsg tx P) = 1
     \<and> (\<exists>tx'. ticks (length (frame ck P)) (snd (sendMsg tx P))
              = Inr (replicate (length (frame ck P)) False, tx')
            \<and> trace tx' = trace tx @ map PortWrite (frame ck P))
     \<and> (\<exists>rx'. ticks (length (frame ck P)) rx
              = Inr (replicate (length (frame ck P) - 1) False @ [True], rx')
            \<and> trace rx' = trace rx @ map PortRead (frame ck P) @
                 (if m_msgHandler rx \<noteq> 0 then [HandlerCall (m_msgHandler rx) P] else [])
            \<and> cstr (getMsg rx') = P \<and> m_i rx' = 0)"
proof -
  have short: "length P < BUFFER_SIZE"
    using assms(3) by (simp add: BUFFER_SIZE_def split: if_splits)
  note S = send_frame [OF assms(1) short assms(5,6,7,8,9,10,11,12,13,14)]
  have fifo: "rx_fifo q = frame ck P @ []" using assms(17) by simp
  note R = receive_frame [OF assms(1,2,3,4,15,16) fifo assms(18,19,20,21,22)]
  from S R show ?thesis by blast
qed

text \<open>
  Claim C1 as stated fails in checksum mode. The payload \<open>[253, MSG_END_A]\<close> holds no
  terminator and has checksum 10, which is \<open>MSG_END_B\<close>: the receiver sees the terminator
  after two bytes and delivers two messages, \<open>[253]\<close> and the empty string, neither of
  them the payload. (A payload of \<open>BUFFER_SIZE - 3\<close> bytes in checksum mode overruns the
  local array of the checksum path, see C2.)
\<close>

theorem checksum_byte_completes_terminator:
  "0 \<notin> set [253, MSG_END_A] \<and> \<not> term_pair_in [253, MSG_END_A]
   \<and> length [253, MSG_END_A] \<le> BUFFER_SIZE - 3
   \<and> frame True [253, MSG_END_A] = [253, MSG_END_A, MSG_END_B, MSG_END_A, MSG_END_B]
   \<and> (case ticks 5 (device True 7 (frame True [253, MSG_END_A])) of
         Inr (rs, s) \<Rightarrow>
           rs = [False, False, True, False, True]
           \<and> trace s = [PortRead 253, PortRead MSG_END_A, PortRead MSG_END_B, HandlerCall 7 [253],
                        PortRead MSG_END_A, PortRead MSG_END_B, HandlerCall 7 []]
       | Inl f \<Rightarrow> False)"
  by code_simp

theorem frame_roundtrip_witness:
  "frame True (bytes_of ''ab'') = bytes_of ''ab'' @ [195, MSG_END_A, MSG_END_B]
   \<and> fst (sendMsg (device True 0 []) (bytes_of ''ab'')) = 1
   \<and> (\<exists>tx'. ticks 5 (snd (sendMsg (device True 0 []) (bytes_of ''ab'')))
              = Inr (replicate 5 False, tx')
            \<and> trace tx' = map PortWrite (bytes_of ''ab'' @ [195, MSG_END_A, MSG_END_B]))
   \<and> (\<exists>rx'. ticks 5 (device True 7 (bytes_of ''ab'' @ [195, MSG_END_A, MSG_END_B]))
              = Inr ([False, False, False, False, True], rx')
            \<and> trace rx' = map PortRead (bytes_of ''ab'' @ [195, MSG_END_A, MSG_END_B])
                 @ [HandlerCall 7 (bytes_of ''ab'')]
            \<and> cstr (getMsg rx') = bytes_of ''ab'' \<and> m_i rx' = 0)"
proof -
  let ?P = "bytes_of ''ab''"
  let ?T = "device True 0 []"
  let ?R = "device True 7 (bytes_of ''ab'' @ [195, MSG_END_A, MSG_END_B])"
  let ?p = "\<lparr>rx_fifo = [], tx_free = 1000, baud = 9600\<rparr>"
  let ?q = "\<lparr>rx_fifo = bytes_of ''ab'' @ [195, MSG_END_A, MSG_END_B], tx_free = 1000, baud = 9600\<rparr>"
  have fr: "frame True ?P = ?P @ [195, MSG_END_A, MSG_END_B]" by code_simp
  have hP: "0 \<notin> set ?P" "\<not> term_pair_in ?P"
    "length ?P \<le> (if True then BUFFER_SIZE - 4 else BUFFER_SIZE - 2)"
    "\<not> (True \<and> ?P \<noteq> [] \<and> last ?P = MSG_END_A \<and> checkSum ?P = MSG_END_B)"
    by code_simp+
  have hT: "m_useChecksum ?T = True" "m_port ?T = Some ?p" "rx_fifo ?p = []"
    "length (frame True ?P) \<le> tx_free ?p" "m_i ?T < BUFFER_SIZE" "\<not> m_rx ?T"
    by code_simp+
  have fT: "length (m_out ?T) = TX_QUEUE_SIZE" "length (m_ob ?T) = TX_QUEUE_SIZE"
    "m_obi ?T = 0" "m_o ?T = 0" "m_txb ?T = 0" "m_txlen ?T = 0" "trace ?T = []"
    by code_simp+
  have rg: "ring ?T" using fT by (simp add: ring_def TX_QUEUE_SIZE_def)
  have hR: "m_useChecksum ?R = True" "m_port ?R = Some ?q" "rx_fifo ?q = frame True ?P"
    "m_i ?R = 0" "\<not> m_rx ?R" "m_o ?R = 0"
    "length (m_in ?R) = BUFFER_SIZE" "length (m_msg ?R) = BUFFER_SIZE"
    by code_simp+
  have vR: "trace ?R = []" "m_msgHandler ?R = 7" "length (frame True ?P) = 5"
    by code_simp+
  from frame_roundtrip [OF hP hT rg fT(4,5,6) hR] obtain tx' rx' where
    a: "fst (sendMsg ?T ?P) = 1" and
    b: "ticks (length (frame True ?P)) (snd (sendMsg ?T ?P))
          = Inr (replicate (length (frame True ?P)) False, tx')"
       "trace tx' = trace ?T @ map PortWrite (frame True ?P)" and
    c: "ticks (length (frame True ?P)) ?R
          = Inr (replicate (length (frame True ?P) - 1) False @ [True], rx')"
       "trace rx' = trace ?R @ map PortRead (frame True ?P) @
          (if m_msgHandler ?R \<noteq> 0 then [HandlerCall (m_msgHandler ?R) ?P] else [])"
       "cstr (getMsg rx') = ?P" "m_i rx' = 0"
    by blast
  have rep: "replicate (5 - 1) False @ [True] = [False, False, False, False, True]"
    by (simp add: numeral_eq_Suc)
  have b1: "ticks 5 (snd (sendMsg ?T ?P)) = Inr (replicate 5 False, tx')"
    using b(1) unfolding vR(3) .
  have b2: "trace tx' = map PortWrite (?P @ [195, MSG_END_A, MSG_END_B])"
    using b(2) unfolding fT(7) fr by simp
  have c1: "ticks 5 ?R = Inr ([False, False, False, False, True], rx')"
    using c(1) unfolding vR(3) rep .
  have c2: "trace rx' = map PortRead (?P @ [195, MSG_END_A, MSG_END_B]) @ [HandlerCall 7 ?P]"
    using c(2) unfolding vR(1,2) fr by simp
  show ?thesis
    using fr a b1 b2 c1 c2 c(3,4) by blast
qed

section \<open>The arrays keep their sizes\<close>

lemma layout_sendMsg: "layout s \<Longrightarrow> layout (snd (sendMsg s msg))"
  by (simp add: layout_def sendMsg_def Let_def TX_QUEUE_SIZE_def)

lemma layout_deliver:
  assumes "deliver s src = Inr s'" and "layout s"
  shows "layout s'"
proof -
  have "strlen src < length (m_msg s)"
    using assms(1) by (auto simp: deliver_def strcpy_def split: if_splits)
  then have "length (store_str (m_msg s) (cstr src)) = length (m_msg s)"
    by (simp add: length_store_str strlen_def)
  then show ?thesis
    using assms by (auto simp: deliver_def strcpy_def layout_def split: if_splits)
qed

lemma layout_bad_checksum:
  assumes "bad_checksum s data rxsum = Inr s'" and "layout s"
  shows "layout s'"
  using assms layout_sendMsg
  by (auto simp: bad_checksum_def Let_def write_local_def split: if_splits)

lemma layout_in [simp]:
  "layout (s\<lparr>m_i := i\<rparr>) = layout s"
  "layout (s\<lparr>m_port := q\<rparr>) = layout s"
  "layout (s\<lparr>trace := t\<rparr>) = layout s"
  "layout (s\<lparr>m_rx := r\<rparr>) = layout s"
  "layout (s\<lparr>m_txb := n\<rparr>) = layout s"
  "layout (s\<lparr>m_txlen := n\<rparr>) = layout s"
  "layout (s\<lparr>m_msgHandler := h\<rparr>) = layout s"
  "layout (s\<lparr>m_useChecksum := c\<rparr>) = layout s"
  by (auto simp: layout_def)

lemma layout_checked_frame:
  assumes "checked_frame s = Inr s'" and "layout s"
  shows "layout s'"
proof -
  let ?inb = "(m_in s)[m_i s - 2 := 0]"
  let ?s0 = "s\<lparr>m_in := ?inb\<rparr>"
  have "\<exists>s1. (deliver ?s0 (cstr ?inb) = Inr s1 \<or>
      bad_checksum ?s0 (cstr ?inb) (m_in s ! (m_i s - 2)) = Inr s1) \<and> s' = s1\<lparr>m_i := 0\<rparr>"
    using assms(1)
    by (auto simp: checked_frame_def Let_def poke_def write_local_def split: if_splits sum.splits)
  then obtain s1 where "deliver ?s0 (cstr ?inb) = Inr s1 \<or>
      bad_checksum ?s0 (cstr ?inb) (m_in s ! (m_i s - 2)) = Inr s1" and s': "s' = s1\<lparr>m_i := 0\<rparr>"
    by blast
  moreover have "layout ?s0" using assms(2) by (simp add: layout_def)
  ultimately have "layout s1" using layout_deliver layout_bad_checksum by blast
  then show ?thesis using s' by simp
qed

lemma layout_plain_frame:
  assumes "plain_frame s = Inr s'" and "layout s"
  shows "layout s'"
proof -
  let ?inb = "(m_in s)[m_i s - 1 := 0]"
  have "deliver (s\<lparr>m_in := ?inb\<rparr>) ?inb = Inr s'"
    using assms(1) by (auto simp: plain_frame_def poke_def split: if_splits)
  moreover have "layout (s\<lparr>m_in := ?inb\<rparr>)" using assms(2) by (simp add: layout_def)
  ultimately show ?thesis by (rule layout_deliver)
qed

lemma layout_rx_part:
  assumes "rx_part s = Inr s'" and "layout s"
  shows "layout s'"
proof (cases "m_i s < BUFFER_SIZE")
  case False
  then have "s' = snd (sendMsg (s\<lparr>m_i := 0\<rparr>) RX_BUFFER_OVERFLOW)"
    using assms(1) by (simp add: rx_part_overflow)
  then show ?thesis using assms(2) layout_sendMsg [of "s\<lparr>m_i := 0\<rparr>"] by simp
next
  case True
  have sz: "length (m_in s) = BUFFER_SIZE" using assms(2) by (simp add: layout_def)
  show ?thesis
  proof (cases "0 < port_available s")
    case False
    then show ?thesis using assms True by (simp add: rx_part_idle)
  next
    case avail: True
    then obtain p b rest where p: "m_port s = Some p" "rx_fifo p = b # rest"
      using port_available_pos by blast
    let ?s1 = "s\<lparr>m_port := Some (p\<lparr>rx_fifo := rest\<rparr>),
                      trace := trace s @ [PortRead b], m_in := (m_in s)[m_i s := b]\<rparr>"
    note rd = rx_part_read [OF True p sz]
    have l1: "layout ?s1" using assms(2) by (simp add: layout_def)
    show ?thesis
    proof (cases "0 < m_i s \<and> b = MSG_END_B \<and> m_in s ! (m_i s - 1) = MSG_END_A")
      case False
      then have "s' = ?s1\<lparr>m_i := m_i s + 1\<rparr>"
        using rd assms(1) by (simp split: if_splits)
      then show ?thesis using l1 by simp
    next
      case bnd: True
      then have "\<exists>s2. (checked_frame ?s1 = Inr s2 \<or> plain_frame ?s1 = Inr s2) \<and> s' = s2\<lparr>m_i := 0\<rparr>"
        using rd assms(1) by (auto split: if_splits sum.splits)
      then obtain s2 where "checked_frame ?s1 = Inr s2 \<or> plain_frame ?s1 = Inr s2"
        and s': "s' = s2\<lparr>m_i := 0\<rparr>" by blast
      then have "layout s2"
        using l1 layout_checked_frame layout_plain_frame by blast
      then show ?thesis using s' by simp
    qed
  qed
qed

lemma shift_out_length: "shift_out m n q = Inr q' \<Longrightarrow> length q' = length q"
proof (induction m n q rule: shift_out.induct)
  case (1 m n q)
  show ?case
  proof (cases "m \<le> n \<and> m < length q")
    case True
    then have "shift_out (m + 1) n (q[m - 1 := q ! m]) = Inr q'"
      using "1.prems" by (subst (asm) shift_out.simps) simp
    then have "length q' = length (q[m - 1 := q ! m])"
      using True by (intro "1.IH") simp_all
    then show ?thesis by simp
  next
    case False
    then show ?thesis
      using "1.prems" by (subst (asm) shift_out.simps) (auto split: if_splits)
  qed
qed

lemma layout_tx_part:
  assumes "tx_part s = Inr s'" and "layout s"
  shows "layout s'"
proof (cases "0 < m_o s")
  case False
  then show ?thesis using assms by (simp add: tx_part_def)
next
  case True
  then obtain s1 where st: "start_head s = Inr s1"
    using assms by (auto simp: tx_part_def split: sum.splits)
  then obtain n where s1: "s1 = s\<lparr>m_txlen := n\<rparr>"
    using start_head_frame by blast
  have l1: "layout s1" using s1 assms(2) by simp
  have "s' = s1 \<or> send_one s1 = Inr s' \<or> dequeue s1 = Inr s'"
    using assms True st by (auto simp: tx_part_def split: if_splits)
  then show ?thesis
  proof (elim disjE)
    assume "s' = s1"
    then show ?thesis using l1 by simp
  next
    assume "send_one s1 = Inr s'"
    then show ?thesis
      using l1
      by (auto simp: send_one_def Let_def port_write_def layout_def
          split: sum.splits option.splits)
  next
    assume "dequeue s1 = Inr s'"
    then obtain q' where q: "shift_out (Suc 0) (m_o s1) (m_out s1) = Inr q'"
      and s': "s' = s1\<lparr>m_out := q', m_o := m_o s1 - 1, m_txlen := 0, m_txb := 0\<rparr>"
      by (auto simp: dequeue_def split: sum.splits)
    from shift_out_length [OF q] show ?thesis
      using l1 s' by (auto simp: layout_def)
  qed
qed

text \<open>
  In every reachable state the arrays have their declared sizes and \<open>_obi\<close> and
  \<open>_o\<close> stay within the queue, so the list updates of \<open>sendMsg\<close> never fall outside
  a list.
\<close>

lemma reachable_layout: "reachable s \<Longrightarrow> layout s"
proof (induction rule: reachable.induct)
  case (start s)
  then show ?case by (simp add: constructed_def layout_def TX_QUEUE_SIZE_def)
next
  case (by_init s bd ck port)
  then show ?case by (cases port) (simp_all add: init_def)
next
  case (by_setMsgHandler s h)
  then show ?case by (simp add: setMsgHandler_def)
next
  case (by_sendMsg s msg)
  then show ?case by (simp add: layout_sendMsg)
next
  case (by_txrx s r s')
  show ?case
  proof (cases "m_port s")
    case None
    then show ?thesis using by_txrx by (simp add: txrx_no_port)
  next
    case (Some p)
    from txrx_halves [OF by_txrx(2) Some] obtain s1 s2 where
      h: "rx_part s = Inr s1" "tx_part s1 = Inr s2" "s' = s2\<lparr>m_rx := False\<rparr>" by blast
    have "layout s2"
      using layout_tx_part [OF h(2) layout_rx_part [OF h(1) by_txrx(3)]] .
    then show ?thesis using h(3) by simp
  qed
next
  case (by_port s p p')
  then show ?case by simp
qed

section \<open>The queue in reachable states\<close>

lemma ring_sendMsg:
  assumes "ring s"
  shows "ring (snd (sendMsg s msg))"
proof (cases "m_o s < TX_QUEUE_SIZE \<and> strlen msg mod 256 < BUFFER_SIZE")
  case False
  then have "snd (sendMsg s msg) = s"
    by (intro sendMsg_failure_keeps_state) (simp add: sendMsg_success)
  then show ?thesis using assms by simp
next
  case True
  let ?o = "m_o s" and ?obi = "m_obi s"
  let ?out' = "(m_out s)[?o := Some ?obi]"
  let ?obi' = "if ?obi < 3 then ?obi + 1 else 0"
  have r: "length (m_out s) = 4" "length (m_ob s) = 4" "?obi < 4" "?o < 4"
    using assms True by (simp_all add: ring_def TX_QUEUE_SIZE_def)
  have r5: "m_out s ! j = Some ((?obi + 4 - ?o + j) mod 4)" if "j < ?o" for j
    using assms that by (simp add: ring_def TX_QUEUE_SIZE_def)
  have ent: "?out' ! j = Some ((?obi' + 4 - (?o + 1) + j) mod 4)" if "j < ?o + 1" for j
  proof (cases "j = ?o")
    case True
    have "(?obi' + 4 - (?o + 1) + ?o) mod 4 = ?obi"
      using r(3,4) by (rule ring_arith_last)
    then show ?thesis using True r(1,4) by simp
  next
    case False
    then have j: "j < ?o" using that by simp
    have "(?obi' + 4 - (?o + 1) + j) mod 4 = (?obi + 4 - ?o + j) mod 4"
      using r(3,4) j by (rule ring_arith_step)
    then show ?thesis using False r5 [OF j] by simp
  qed
  have o': "?obi' < 4" using r(3) by simp
  show ?thesis
    using True r o' ent
    by (simp add: sendMsg_success_state ring_def TX_QUEUE_SIZE_def)
qed

lemma ring_dequeued:
  assumes "ring s" and "0 < m_o s" and "m_o s < TX_QUEUE_SIZE"
  shows "ring (s\<lparr>m_out := take (m_o s) (tl (m_out s)) @ drop (m_o s) (m_out s),
           m_o := m_o s - 1, m_txlen := 0, m_txb := 0\<rparr>)"
proof -
  let ?o = "m_o s" and ?obi = "m_obi s"
  let ?out' = "take ?o (tl (m_out s)) @ drop ?o (m_out s)"
  have r: "length (m_out s) = 4" "length (m_ob s) = 4" "?obi < 4" "?o < 4"
    using assms by (simp_all add: ring_def TX_QUEUE_SIZE_def)
  have r5: "m_out s ! j = Some ((?obi + 4 - ?o + j) mod 4)" if "j < ?o" for j
    using assms that by (simp add: ring_def TX_QUEUE_SIZE_def)
  have ent: "?out' ! j = Some ((?obi + 4 - (?o - 1) + j) mod 4)" if "j < ?o - 1" for j
  proof -
    have jo: "j < ?o" using that by simp
    have "?out' ! j = tl (m_out s) ! j"
      using jo r(1,4) by (simp add: nth_append)
    also have "\<dots> = m_out s ! (j + 1)"
      using that r(1,4) by (simp add: nth_tl)
    also have "\<dots> = Some ((?obi + 4 - ?o + (j + 1)) mod 4)"
      using that by (intro r5) simp
    also have "?obi + 4 - ?o + (j + 1) = ?obi + 4 - (?o - 1) + j"
      using assms(2) r(4) by simp
    finally show ?thesis .
  qed
  show ?thesis
    using r ent by (simp add: ring_def TX_QUEUE_SIZE_def)
qed

lemma ring_deliver:
  assumes "deliver s src = Inr s'" and "ring s"
  shows "ring s'"
  using assms by (auto simp: deliver_def strcpy_def ring_def split: if_splits)

lemma ring_bad_checksum:
  assumes "bad_checksum s data rxsum = Inr s'" and "ring s"
  shows "ring s'"
  using assms ring_sendMsg
  by (auto simp: bad_checksum_def Let_def write_local_def split: if_splits)

lemma ring_checked_frame:
  assumes "checked_frame s = Inr s'" and "ring s"
  shows "ring s'"
proof -
  let ?inb = "(m_in s)[m_i s - 2 := 0]"
  let ?s0 = "s\<lparr>m_in := ?inb\<rparr>"
  have "\<exists>s1. (deliver ?s0 (cstr ?inb) = Inr s1 \<or>
      bad_checksum ?s0 (cstr ?inb) (m_in s ! (m_i s - 2)) = Inr s1) \<and> s' = s1\<lparr>m_i := 0\<rparr>"
    using assms(1)
    by (auto simp: checked_frame_def Let_def poke_def write_local_def split: if_splits sum.splits)
  then obtain s1 where "deliver ?s0 (cstr ?inb) = Inr s1 \<or>
      bad_checksum ?s0 (cstr ?inb) (m_in s ! (m_i s - 2)) = Inr s1" and s': "s' = s1\<lparr>m_i := 0\<rparr>"
    by blast
  moreover have "ring ?s0" using assms(2) by simp
  ultimately have "ring s1" using ring_deliver ring_bad_checksum by blast
  then show ?thesis using s' by simp
qed

lemma ring_plain_frame:
  assumes "plain_frame s = Inr s'" and "ring s"
  shows "ring s'"
proof -
  let ?inb = "(m_in s)[m_i s - 1 := 0]"
  have "deliver (s\<lparr>m_in := ?inb\<rparr>) ?inb = Inr s'"
    using assms(1) by (auto simp: plain_frame_def poke_def split: if_splits)
  moreover have "ring (s\<lparr>m_in := ?inb\<rparr>)" using assms(2) by simp
  ultimately show ?thesis by (rule ring_deliver)
qed

lemma ring_rx_part:
  assumes "rx_part s = Inr s'" and "ring s" and "length (m_in s) = BUFFER_SIZE"
  shows "ring s'"
proof (cases "m_i s < BUFFER_SIZE")
  case False
  then have "s' = snd (sendMsg (s\<lparr>m_i := 0\<rparr>) RX_BUFFER_OVERFLOW)"
    using assms(1) by (simp add: rx_part_overflow)
  then show ?thesis using assms(2) ring_sendMsg [of "s\<lparr>m_i := 0\<rparr>"] by simp
next
  case True
  show ?thesis
  proof (cases "0 < port_available s")
    case False
    then show ?thesis using assms True by (simp add: rx_part_idle)
  next
    case avail: True
    then obtain p b rest where p: "m_port s = Some p" "rx_fifo p = b # rest"
      using port_available_pos by blast
    let ?s1 = "s\<lparr>m_port := Some (p\<lparr>rx_fifo := rest\<rparr>),
                      trace := trace s @ [PortRead b], m_in := (m_in s)[m_i s := b]\<rparr>"
    note rd = rx_part_read [OF True p assms(3)]
    have l1: "ring ?s1" using assms(2) by simp
    show ?thesis
    proof (cases "0 < m_i s \<and> b = MSG_END_B \<and> m_in s ! (m_i s - 1) = MSG_END_A")
      case False
      then have "s' = ?s1\<lparr>m_i := m_i s + 1\<rparr>"
        using rd assms(1) by (simp split: if_splits)
      then show ?thesis using l1 by simp
    next
      case bnd: True
      then have "\<exists>s2. (checked_frame ?s1 = Inr s2 \<or> plain_frame ?s1 = Inr s2) \<and> s' = s2\<lparr>m_i := 0\<rparr>"
        using rd assms(1) by (auto split: if_splits sum.splits)
      then obtain s2 where "checked_frame ?s1 = Inr s2 \<or> plain_frame ?s1 = Inr s2"
        and s': "s' = s2\<lparr>m_i := 0\<rparr>" by blast
      then have "ring s2"
        using l1 ring_checked_frame ring_plain_frame by blast
      then show ?thesis using s' by simp
    qed
  qed
qed

lemma ring_tx_part:
  assumes "tx_part s = Inr s'" and "ring s"
  shows "ring s'"
proof (cases "0 < m_o s")
  case False
  then show ?thesis using assms by (simp add: tx_part_def)
next
  case True
  then obtain s1 where st: "start_head s = Inr s1"
    using assms by (auto simp: tx_part_def split: sum.splits)
  then obtain n where s1: "s1 = s\<lparr>m_txlen := n\<rparr>"
    using start_head_frame by blast
  have l1: "ring s1" using s1 assms(2) by simp
  have "s' = s1 \<or> send_one s1 = Inr s' \<or> dequeue s1 = Inr s'"
    using assms True st by (auto simp: tx_part_def split: if_splits)
  then show ?thesis
  proof (elim disjE)
    assume "s' = s1"
    then show ?thesis using l1 by simp
  next
    assume "send_one s1 = Inr s'"
    then show ?thesis
      using l1
      by (auto simp: send_one_def Let_def port_write_def split: sum.splits option.splits)
  next
    assume dq: "dequeue s1 = Inr s'"
    have len: "length (m_out s1) = TX_QUEUE_SIZE" "m_o s1 \<le> TX_QUEUE_SIZE" "0 < m_o s1"
      using l1 True s1 by (simp_all add: ring_def)
    have "m_o s1 \<noteq> TX_QUEUE_SIZE"
      using dequeue_full_queue [OF len(1)] dq by auto
    then have lt: "m_o s1 < TX_QUEUE_SIZE" using len(2) by simp
    then have "m_o s1 < length (m_out s1)" using len(1) by simp
    from dequeue_inside [OF this] dq ring_dequeued [OF l1 len(3) lt]
    show ?thesis by simp
  qed
qed

text \<open>
  The hypotheses on the queue made above hold in every reachable state: the queue is
  a ring over the slots, and with an empty queue the cursor is (0, 0).
\<close>

lemma reachable_ring: "reachable s \<Longrightarrow> ring s"
proof (induction rule: reachable.induct)
  case (start s)
  then show ?case by (simp add: constructed_def ring_def TX_QUEUE_SIZE_def)
next
  case (by_init s bd ck port)
  then show ?case by (cases port) (simp_all add: init_def ring_def)
next
  case (by_setMsgHandler s h)
  then show ?case by (simp add: setMsgHandler_def ring_def)
next
  case (by_sendMsg s msg)
  then show ?case by (simp add: ring_sendMsg)
next
  case (by_txrx s r s')
  show ?case
  proof (cases "m_port s")
    case None
    then show ?thesis using by_txrx by (simp add: txrx_no_port)
  next
    case (Some p)
    from txrx_halves [OF by_txrx(2) Some] obtain s1 s2 where
      h: "rx_part s = Inr s1" "tx_part s1 = Inr s2" "s' = s2\<lparr>m_rx := False\<rparr>" by blast
    have sz: "length (m_in s) = BUFFER_SIZE"
      using reachable_in [OF by_txrx(1)] by simp
    have "ring s2"
      using ring_tx_part [OF h(2) ring_rx_part [OF h(1) by_txrx(3) sz]] .
    then show ?thesis using h(3) by simp
  qed
next
  case (by_port s p p')
  then show ?case by simp
qed

lemma sendMsg_grows: "m_o s \<le> m_o (snd (sendMsg s msg))"
  by (simp add: sendMsg_def Let_def)

lemma deliver_queue:
  assumes "deliver s src = Inr s'"
  shows "m_o s' = m_o s \<and> m_txb s' = m_txb s \<and> m_txlen s' = m_txlen s"
  using assms by (auto simp: deliver_def strcpy_def split: if_splits)

lemma bad_checksum_queue:
  assumes "bad_checksum s data rxsum = Inr s'"
  shows "m_o s \<le> m_o s' \<and> m_txb s' = m_txb s \<and> m_txlen s' = m_txlen s"
proof -
  let ?a = "snd (sendMsg s RX_BAD_CHECKSUM)"
  let ?b = "snd (sendMsg ?a (bytes_of ''!'' @ data))"
  have "s' = snd (sendMsg ?b (bytes_of ''!got ['' @ dec (unat rxsum) @ bytes_of '']''))"
    using assms by (auto simp: bad_checksum_def Let_def write_local_def split: if_splits)
  moreover have "m_o s \<le> m_o ?a" "m_o ?a \<le> m_o ?b"
    "m_o ?b \<le> m_o (snd (sendMsg ?b (bytes_of ''!got ['' @ dec (unat rxsum) @ bytes_of '']'')))"
    by (rule sendMsg_grows)+
  ultimately show ?thesis by simp
qed

lemma rx_part_queue:
  assumes "rx_part s = Inr s'" and "length (m_in s) = BUFFER_SIZE"
  shows "m_o s \<le> m_o s' \<and> m_txb s' = m_txb s \<and> m_txlen s' = m_txlen s"
proof (cases "m_i s < BUFFER_SIZE")
  case False
  then have "s' = snd (sendMsg (s\<lparr>m_i := 0\<rparr>) RX_BUFFER_OVERFLOW)"
    using assms(1) by (simp add: rx_part_overflow)
  then show ?thesis using sendMsg_grows [of "s\<lparr>m_i := 0\<rparr>" RX_BUFFER_OVERFLOW] by simp
next
  case True
  show ?thesis
  proof (cases "0 < port_available s")
    case False
    then show ?thesis using assms True by (simp add: rx_part_idle)
  next
    case avail: True
    then obtain p b rest where p: "m_port s = Some p" "rx_fifo p = b # rest"
      using port_available_pos by blast
    let ?s1 = "s\<lparr>m_port := Some (p\<lparr>rx_fifo := rest\<rparr>),
                      trace := trace s @ [PortRead b], m_in := (m_in s)[m_i s := b]\<rparr>"
    note rd = rx_part_read [OF True p assms(2)]
    show ?thesis
    proof (cases "0 < m_i s \<and> b = MSG_END_B \<and> m_in s ! (m_i s - 1) = MSG_END_A")
      case False
      then have "s' = ?s1\<lparr>m_i := m_i s + 1\<rparr>"
        using rd assms(1) by (simp split: if_splits)
      then show ?thesis by simp
    next
      case bnd: True
      then have "\<exists>s2. (checked_frame ?s1 = Inr s2 \<or> plain_frame ?s1 = Inr s2) \<and> s' = s2\<lparr>m_i := 0\<rparr>"
        using rd assms(1) by (auto split: if_splits sum.splits)
      then obtain s2 where c: "checked_frame ?s1 = Inr s2 \<or> plain_frame ?s1 = Inr s2"
        and s': "s' = s2\<lparr>m_i := 0\<rparr>" by blast
      have "m_o ?s1 \<le> m_o s2 \<and> m_txb s2 = m_txb ?s1 \<and> m_txlen s2 = m_txlen ?s1"
        using c
      proof
        assume cf: "checked_frame ?s1 = Inr s2"
        let ?inb = "(m_in ?s1)[m_i ?s1 - 2 := 0]"
        let ?s0 = "?s1\<lparr>m_in := ?inb\<rparr>"
        have "\<exists>t. (deliver ?s0 (cstr ?inb) = Inr t \<or>
            bad_checksum ?s0 (cstr ?inb) (m_in ?s1 ! (m_i ?s1 - 2)) = Inr t) \<and> s2 = t\<lparr>m_i := 0\<rparr>"
          using cf
          by (auto simp: checked_frame_def Let_def poke_def write_local_def
              split: if_splits sum.splits)
        then obtain t where "deliver ?s0 (cstr ?inb) = Inr t \<or>
            bad_checksum ?s0 (cstr ?inb) (m_in ?s1 ! (m_i ?s1 - 2)) = Inr t"
          and s2: "s2 = t\<lparr>m_i := 0\<rparr>" by blast
        then have "m_o ?s0 \<le> m_o t \<and> m_txb t = m_txb ?s0 \<and> m_txlen t = m_txlen ?s0"
          using deliver_queue [of ?s0 "cstr ?inb" t]
            bad_checksum_queue [of ?s0 "cstr ?inb" "m_in ?s1 ! (m_i ?s1 - 2)" t]
          by auto
        then show ?thesis using s2 by simp
      next
        assume pf: "plain_frame ?s1 = Inr s2"
        let ?inb = "(m_in ?s1)[m_i ?s1 - 1 := 0]"
        have "deliver (?s1\<lparr>m_in := ?inb\<rparr>) ?inb = Inr s2"
          using pf by (auto simp: plain_frame_def poke_def split: if_splits)
        from deliver_queue [OF this] show ?thesis by simp
      qed
      then show ?thesis using s' by simp
    qed
  qed
qed

lemma tx_part_idle_cursor:
  assumes "tx_part s = Inr s'" and "m_o s = 0 \<longrightarrow> m_txb s = 0 \<and> m_txlen s = 0"
  shows "m_o s' = 0 \<longrightarrow> m_txb s' = 0 \<and> m_txlen s' = 0"
proof (cases "0 < m_o s")
  case False
  then show ?thesis using assms by (simp add: tx_part_def)
next
  case True
  then obtain s1 where st: "start_head s = Inr s1"
    using assms by (auto simp: tx_part_def split: sum.splits)
  then obtain n where s1: "s1 = s\<lparr>m_txlen := n\<rparr>"
    using start_head_frame by blast
  have "s' = s1 \<or> send_one s1 = Inr s' \<or> dequeue s1 = Inr s'"
    using assms True st by (auto simp: tx_part_def split: if_splits)
  then show ?thesis
  proof (elim disjE)
    assume "s' = s1"
    then show ?thesis using s1 True by simp
  next
    assume "send_one s1 = Inr s'"
    from send_one_frame [OF this] show ?thesis using s1 True by simp
  next
    assume "dequeue s1 = Inr s'"
    then show ?thesis by (auto simp: dequeue_def split: sum.splits)
  qed
qed

lemma reachable_idle_cursor:
  "reachable s \<Longrightarrow> m_o s = 0 \<longrightarrow> m_txb s = 0 \<and> m_txlen s = 0"
proof (induction rule: reachable.induct)
  case (start s)
  then show ?case by (simp add: constructed_def)
next
  case (by_init s bd ck port)
  then show ?case by (cases port) (simp_all add: init_def)
next
  case (by_setMsgHandler s h)
  then show ?case by (simp add: setMsgHandler_def)
next
  case (by_sendMsg s msg)
  then show ?case using sendMsg_grows [of s msg] by simp
next
  case (by_txrx s r s')
  show ?case
  proof (cases "m_port s")
    case None
    then show ?thesis using by_txrx by (simp add: txrx_no_port)
  next
    case (Some p)
    from txrx_halves [OF by_txrx(2) Some] obtain s1 s2 where
      h: "rx_part s = Inr s1" "tx_part s1 = Inr s2" "s' = s2\<lparr>m_rx := False\<rparr>" by blast
    have sz: "length (m_in s) = BUFFER_SIZE"
      using reachable_in [OF by_txrx(1)] by simp
    have "m_o s1 = 0 \<longrightarrow> m_txb s1 = 0 \<and> m_txlen s1 = 0"
      using rx_part_queue [OF h(1) sz] by_txrx(3) by simp
    from tx_part_idle_cursor [OF h(2) this] show ?thesis using h(3) by simp
  qed
next
  case (by_port s p p')
  then show ?case by simp
qed

end
